theory Spec2Isabelle
  imports Main "HOL-Library.Word"
begin

unbundle bit_operations_syntax

section \<open>seekgzip: random access reads over a gzip file through an index of access points\<close>

text \<open>
  A shallow embedding of \<^verbatim>\<open>seekgzip.c\<close> (the portion of zran.c it carries, and the
  \<^verbatim>\<open>seekgzip_*\<close> functions built on it) and of the \<^verbatim>\<open>reader\<close> class of
  \<^verbatim>\<open>export.cpp\<close>.

  Integers. \<^verbatim>\<open>off_t\<close> and \<^verbatim>\<open>int\<close> values are modelled as \<open>int\<close>, \<^verbatim>\<open>unsigned\<close>
  counts (\<^verbatim>\<open>avail_in\<close>, \<^verbatim>\<open>avail_out\<close>, \<^verbatim>\<open>left\<close>) as \<open>nat\<close>; bytes are \<open>8 word\<close>.
  The C objects outside the repository (the C library's \<^verbatim>\<open>FILE\<close>, zlib's inflater and
  \<^verbatim>\<open>gzFile\<close>, the allocator) are parameters of the model.
\<close>

type_synonym byte = "8 word"

subsection \<open>Constants\<close>

text \<open>\<^verbatim>\<open>#define SPAN 1048576L\<close>, \<^verbatim>\<open>#define WINSIZE 32768U\<close>, \<^verbatim>\<open>#define CHUNK 16384\<close>.\<close>

definition SPAN :: int where "SPAN = 1048576"
definition WINSIZE :: nat where "WINSIZE = 32768"
definition CHUNK :: nat where "CHUNK = 16384"

text \<open>The return codes of zlib.h.\<close>

definition Z_OK :: int where "Z_OK = 0"
definition Z_STREAM_END :: int where "Z_STREAM_END = 1"
definition Z_NEED_DICT :: int where "Z_NEED_DICT = 2"
definition Z_ERRNO :: int where "Z_ERRNO = - 1"
definition Z_STREAM_ERROR :: int where "Z_STREAM_ERROR = - 2"
definition Z_DATA_ERROR :: int where "Z_DATA_ERROR = - 3"
definition Z_MEM_ERROR :: int where "Z_MEM_ERROR = - 4"
definition Z_BUF_ERROR :: int where "Z_BUF_ERROR = - 5"

text \<open>The enumeration of seekgzip.h: \<^verbatim>\<open>SEEKGZIP_ERROR=-1024\<close> and its successors.\<close>

definition SEEKGZIP_SUCCESS :: int where "SEEKGZIP_SUCCESS = 0"
definition SEEKGZIP_ERROR :: int where "SEEKGZIP_ERROR = - 1024"
definition SEEKGZIP_OPENERROR :: int where "SEEKGZIP_OPENERROR = - 1023"
definition SEEKGZIP_READERROR :: int where "SEEKGZIP_READERROR = - 1022"
definition SEEKGZIP_WRITEERROR :: int where "SEEKGZIP_WRITEERROR = - 1021"
definition SEEKGZIP_DATAERROR :: int where "SEEKGZIP_DATAERROR = - 1020"
definition SEEKGZIP_OUTOFMEMORY :: int where "SEEKGZIP_OUTOFMEMORY = - 1019"
definition SEEKGZIP_IMCOMPATIBLE :: int where "SEEKGZIP_IMCOMPATIBLE = - 1018"
definition SEEKGZIP_ZLIBERROR :: int where "SEEKGZIP_ZLIBERROR = - 1017"

subsection \<open>Undefined behaviour and the allocator\<close>

text \<open>
  Where the C or C++ code would leave defined behaviour the model returns a \<open>fault\<close>
  (\<open>Inl\<close> of a sum) instead of a value.
\<close>

datatype fault =
    NullDeref        \<comment> \<open>a member access through a null pointer\<close>
  | OutOfBounds      \<comment> \<open>a read or write outside an array\<close>
  | UseAfterFree     \<comment> \<open>an access to an object that was freed\<close>
  | BadShift         \<comment> \<open>a shift by a negative count or by the width or more\<close>
  | IntOverflow      \<comment> \<open>signed overflow of an \<^verbatim>\<open>int\<close>\<close>

text \<open>
  The allocator: which requests succeed, and what a fresh (uninitialised) object holds.
  The same parameter gives the content of uninitialised stack arrays.
\<close>

datatype alloc_req =
    AllocAccess          \<comment> \<open>\<^verbatim>\<open>malloc(sizeof(struct access))\<close>\<close>
  | AllocPoints int      \<comment> \<open>room for that many \<^verbatim>\<open>struct point\<close>\<close>
  | AllocBytes nat       \<comment> \<open>that many bytes\<close>

record mem =
  alloc_ok :: "alloc_req \<Rightarrow> bool"
  junk :: "nat \<Rightarrow> byte"

definition fresh :: "mem \<Rightarrow> nat \<Rightarrow> byte list" where
  "fresh M n = map (junk M) [0..<n]"

text \<open>
  \<^verbatim>\<open>memcpy(dst + d, src + s, n)\<close> on arrays held as lists; the caller keeps
  \<open>d + n \<le> length dst\<close> and \<open>s + n \<le> length src\<close>.
\<close>

definition memcpy :: "byte list \<Rightarrow> nat \<Rightarrow> byte list \<Rightarrow> nat \<Rightarrow> nat \<Rightarrow> byte list" where
  "memcpy dst d src s n = take d dst @ take n (drop s src) @ drop (d + n) dst"

subsection \<open>Access points and the index\<close>

text \<open>
  \<^verbatim>\<open>struct point { off_t out; off_t in; int bits; unsigned char window[WINSIZE]; }\<close>;
  the field \<^verbatim>\<open>in\<close> is named \<open>inp\<close> here.
  \<^verbatim>\<open>struct access { int have; int size; struct point *list; }\<close>: \<open>list_p\<close> holds the
  entries that are filled in, \<open>have_n\<close> and \<open>size_n\<close> are the two counters.
\<close>

record point =
  out :: int
  inp :: int
  bits :: int
  window :: "byte list"

record access =
  have_n :: int
  size_n :: int
  list_p :: "point list"

text \<open>
  \<^verbatim>\<open>addpoint\<close>: a null index is created with room for eight points, a full one is
  doubled; either allocation can fail, and the result is then null (\<open>None\<close>). The new
  entry's window is filled by the two \<^verbatim>\<open>memcpy\<close> calls, into uninitialised storage.
  \<open>left\<close> is \<^verbatim>\<open>strm.avail_out\<close> at the only call, which is at most \<open>WINSIZE\<close>.
\<close>

definition addpoint ::
  "mem \<Rightarrow> access option \<Rightarrow> int \<Rightarrow> int \<Rightarrow> int \<Rightarrow> nat \<Rightarrow> byte list \<Rightarrow> access option" where
  "addpoint M index bits' in' out' left win =
     (case (case index of
              None \<Rightarrow>
                if alloc_ok M AllocAccess \<and> alloc_ok M (AllocPoints 8)
                then Some \<lparr>have_n = 0, size_n = 8, list_p = []\<rparr> else None
            | Some a \<Rightarrow>
                if have_n a = size_n a
                then (if alloc_ok M (AllocPoints (2 * size_n a))
                      then Some (a\<lparr>size_n := 2 * size_n a\<rparr>) else None)
                else Some a) of
        None \<Rightarrow> None
      | Some a \<Rightarrow>
          (let w0 = fresh M WINSIZE;
               w1 = (if left \<noteq> 0 then memcpy w0 0 win (WINSIZE - left) left else w0);
               w2 = (if left < WINSIZE then memcpy w1 left win 0 (WINSIZE - left) else w1)
           in Some (a\<lparr>list_p := list_p a @ [\<lparr>out = out', inp = in', bits = bits', window = w2\<rparr>],
                      have_n := have_n a + 1\<rparr>)))"

text \<open>
  \<^verbatim>\<open>findpoint\<close>: the loop is \<^verbatim>\<open>std::upper_bound\<close> on \<open>out\<close>; \<open>first\<close> is the offset
  of the pointer \<^verbatim>\<open>first\<close> from \<^verbatim>\<open>index->list\<close>. Reading an entry that is not filled
  in is \<open>None\<close> in the loop and a fault in \<open>findpoint\<close>.
\<close>

function findpoint_loop :: "point list \<Rightarrow> int \<Rightarrow> nat \<Rightarrow> int \<Rightarrow> nat option" where
  "findpoint_loop l offset first len =
     (if 0 < len then
        (if first + nat (len div 2) < length l then
           (if offset < out (l ! (first + nat (len div 2)))
            then findpoint_loop l offset first (len div 2)
            else findpoint_loop l offset (first + nat (len div 2) + 1) (len - len div 2 - 1))
         else None)
      else Some first)"
  by pat_completeness auto
termination
  by (relation "measure (\<lambda>(l, offset, first, len). nat len)") auto

definition findpoint :: "access \<Rightarrow> int \<Rightarrow> fault + point option" where
  "findpoint index offset =
     (case findpoint_loop (list_p index) offset 0 (have_n index) of
        None \<Rightarrow> Inl OutOfBounds
      | Some first \<Rightarrow> Inr (if first = 0 then None else Some (list_p index ! (first - 1))))"

subsection \<open>The C library's files\<close>

text \<open>
  A \<^verbatim>\<open>FILE *\<close> opened for reading: the bytes of the file, the position, the error
  indicator that \<^verbatim>\<open>ferror\<close> tests, whether the stream can seek, and the offset from
  which the device fails to deliver (none for a healthy file).
\<close>

record cfile =
  content :: "byte list"
  fpos :: nat
  ferr :: bool
  seekable :: bool
  bad_from :: "nat option"

definition readable :: "cfile \<Rightarrow> nat" where
  "readable f = (case bad_from f of None \<Rightarrow> length (content f)
                 | Some b \<Rightarrow> min b (length (content f)))"

text \<open>\<^verbatim>\<open>fread(buf, 1, n, f)\<close>: the bytes delivered and the file afterwards.\<close>

definition fread :: "cfile \<Rightarrow> nat \<Rightarrow> byte list \<times> cfile" where
  "fread f n =
     (let bs = take (min n (readable f - fpos f)) (drop (fpos f) (content f))
      in (bs, f\<lparr>fpos := fpos f + length bs,
                 ferr := ferr f \<or> (length bs < n \<and> readable f < length (content f))\<rparr>))"

text \<open>\<^verbatim>\<open>getc(f)\<close>: the byte as a non-negative \<^verbatim>\<open>int\<close>, or \<open>-1\<close> (\<^verbatim>\<open>EOF\<close>).\<close>

definition getc :: "cfile \<Rightarrow> int \<times> cfile" where
  "getc f = (case fread f 1 of (bs, f') \<Rightarrow>
               (case bs of [] \<Rightarrow> (- 1, f') | c # _ \<Rightarrow> (uint c, f')))"

text \<open>\<^verbatim>\<open>fseeko(f, off, SEEK_SET)\<close>: \<open>0\<close>, or \<open>-1\<close> with the position unchanged.\<close>

definition fseeko :: "cfile \<Rightarrow> int \<Rightarrow> int \<times> cfile" where
  "fseeko f off = (if seekable f \<and> 0 \<le> off then (0, f\<lparr>fpos := nat off\<rparr>) else (- 1, f))"

subsection \<open>zlib's inflater\<close>

text \<open>
  The inflater is a parameter: a type \<open>'z\<close> of internal states and the four entry points
  the code calls. \<open>z_inflate\<close> is given the state, the flush mode, the \<^verbatim>\<open>avail_in\<close> bytes at
  \<^verbatim>\<open>next_in\<close> and \<^verbatim>\<open>avail_out\<close>; it answers with its return code, the number of input
  bytes it consumed, the bytes it wrote at \<^verbatim>\<open>next_out\<close>, \<^verbatim>\<open>data_type\<close> and its new state.
\<close>

datatype flush = Z_NO_FLUSH | Z_BLOCK

record 'z inflate_res =
  r_ret :: int
  r_in :: nat
  r_out :: "byte list"
  r_data_type :: int
  r_state :: 'z

record 'z zlib =
  z_inflateInit2 :: "int \<Rightarrow> int \<times> 'z"
  z_inflatePrime :: "'z \<Rightarrow> int \<Rightarrow> int \<Rightarrow> 'z"
  z_inflateSetDictionary :: "'z \<Rightarrow> byte list \<Rightarrow> nat \<Rightarrow> 'z"
  z_inflate :: "'z \<Rightarrow> flush \<Rightarrow> byte list \<Rightarrow> nat \<Rightarrow> 'z inflate_res"

text \<open>
  The fields of \<^verbatim>\<open>z_stream\<close> that the code uses. \<open>next_in\<close> is the list of the
  \<^verbatim>\<open>avail_in\<close> unread bytes; \<^verbatim>\<open>next_out\<close> is not a field: the code keeps it at
  (start of the output array) + (size given) - \<^verbatim>\<open>avail_out\<close>, and the caller of
  \<open>inflate\<close> below stores the bytes there.
\<close>

record 'z z_stream =
  next_in :: "byte list"
  avail_out :: nat
  data_type :: int
  zstate :: 'z

text \<open>
  \<^verbatim>\<open>ret = inflate(&strm, flush)\<close>: the return code, the bytes written and the stream
  afterwards. zlib consumes at most \<^verbatim>\<open>avail_in\<close> bytes and writes at most
  \<^verbatim>\<open>avail_out\<close> bytes; the model cuts the inflater's answer to that.
\<close>

definition inflate :: "'z zlib \<Rightarrow> 'z z_stream \<Rightarrow> flush \<Rightarrow> int \<times> byte list \<times> 'z z_stream" where
  "inflate Z strm fl =
     (let r = z_inflate Z (zstate strm) fl (next_in strm) (avail_out strm);
          outb = take (avail_out strm) (r_out r)
      in (r_ret r, outb,
          strm\<lparr>next_in := drop (r_in r) (next_in strm),
               avail_out := avail_out strm - length outb,
               data_type := r_data_type r,
               zstate := r_state r\<rparr>))"

text \<open>How a loop body ends: a \<^verbatim>\<open>goto\<close> to the error label, a \<^verbatim>\<open>break\<close>, or its last line.\<close>

datatype 's ctl = Goto int 's | Break int 's | Next int 's

text \<open>How a loop ends: through the \<^verbatim>\<open>goto\<close>, or left (by \<^verbatim>\<open>break\<close> or its condition).\<close>

datatype 's lres = Failed int 's | Left int 's

subsection \<open>build_index\<close>

record 'z bstate =
  b_in :: cfile
  b_strm :: "'z z_stream"
  b_window :: "byte list"
  totin :: int
  totout :: int
  last_out :: int
  b_index :: "access option"

text \<open>
  The test of lines 236-237: at the end of a block (bit 7 of \<^verbatim>\<open>data_type\<close>), not the
  last block (bit 6), and at the start of the output or more than \<open>span\<close> after the last
  access point.
\<close>

definition want_point :: "int \<Rightarrow> int \<Rightarrow> int \<Rightarrow> int \<Rightarrow> bool" where
  "want_point dt tout lst span =
     ((dt AND 128 \<noteq> 0) \<and> \<not> (dt AND 64 \<noteq> 0) \<and> (tout = 0 \<or> tout - lst > span))"

text \<open>
  The body of the inner loop (lines 207-245): the sliding window is reset when it is
  full (\<open>reset_window\<close>), then one call of \<^verbatim>\<open>inflate\<close> with \<^verbatim>\<open>Z_BLOCK\<close> writes into
  it at \<open>WINSIZE - avail_out\<close>.
\<close>

definition reset_window :: "'z z_stream \<Rightarrow> 'z z_stream" where
  "reset_window strm = (if avail_out strm = 0 then strm\<lparr>avail_out := WINSIZE\<rparr> else strm)"

definition build_index_step :: "'z zlib \<Rightarrow> mem \<Rightarrow> int \<Rightarrow> 'z bstate \<Rightarrow> 'z bstate ctl" where
  "build_index_step Z M span st =
     (let strm1 = reset_window (b_strm st)
      in case inflate Z strm1 Z_BLOCK of (ret0, outb, strm2) \<Rightarrow>
        (let tin = totin st + int (length (next_in strm1)) - int (length (next_in strm2));
             tout = totout st + int (avail_out strm1) - int (avail_out strm2);
             ret = (if ret0 = Z_NEED_DICT then Z_DATA_ERROR else ret0);
             st' = st\<lparr>b_strm := strm2,
                      b_window := memcpy (b_window st) (WINSIZE - avail_out strm1) outb 0 (length outb),
                      totin := tin, totout := tout\<rparr>
         in if ret = Z_MEM_ERROR \<or> ret = Z_DATA_ERROR then Goto ret st'
            else if ret = Z_STREAM_END then Break ret st'
            else if want_point (data_type strm2) tout (last_out st) span then
              (case addpoint M (b_index st) (data_type strm2 AND 7) tin tout
                      (avail_out strm2) (b_window st') of
                 None \<Rightarrow> Goto Z_MEM_ERROR (st'\<lparr>b_index := None\<rparr>)
               | Some a \<Rightarrow> Next ret (st'\<lparr>b_index := Some a, last_out := tout\<rparr>))
            else Next ret st'))"

text \<open>The inner loop \<^verbatim>\<open>do { ... } while (strm.avail_in != 0)\<close>.\<close>

partial_function (option) build_index_inner ::
  "'z zlib \<Rightarrow> mem \<Rightarrow> int \<Rightarrow> 'z bstate \<Rightarrow> 'z bstate lres option" where
  "build_index_inner Z M span st =
     (case build_index_step Z M span st of
        Goto r st' \<Rightarrow> Some (Failed r st')
      | Break r st' \<Rightarrow> Some (Left r st')
      | Next r st' \<Rightarrow>
          if next_in (b_strm st') \<noteq> [] then build_index_inner Z M span st'
          else Some (Left r st'))"

text \<open>
  The outer loop \<^verbatim>\<open>do { ... } while (ret != Z_STREAM_END)\<close>: one \<^verbatim>\<open>fread\<close> of
  \<open>CHUNK\<close> bytes, then the inner loop.
\<close>

partial_function (option) build_index_outer ::
  "'z zlib \<Rightarrow> mem \<Rightarrow> int \<Rightarrow> 'z bstate \<Rightarrow> 'z bstate lres option" where
  "build_index_outer Z M span st =
     (case fread (b_in st) CHUNK of (bs, f') \<Rightarrow>
        if ferr f' then Some (Failed Z_ERRNO (st\<lparr>b_in := f'\<rparr>))
        else if length bs = 0 then Some (Failed Z_DATA_ERROR (st\<lparr>b_in := f'\<rparr>))
        else
          Option.bind
            (build_index_inner Z M span (st\<lparr>b_in := f', b_strm := (b_strm st)\<lparr>next_in := bs\<rparr>\<rparr>))
            (\<lambda>r. case r of
                    Failed e st' \<Rightarrow> Some (Failed e st')
                  | Left ret st' \<Rightarrow>
                      if ret \<noteq> Z_STREAM_END then build_index_outer Z M span st'
                      else Some (Left ret st')))"

text \<open>
  \<^verbatim>\<open>build_index(in, span, &built)\<close>: the return value and \<^verbatim>\<open>*built\<close> (\<open>None\<close> where
  the code leaves it untouched). \<open>None\<close> as the whole result is a run that never returns.
  After the loop the code reallocates \<^verbatim>\<open>index\<close> and reads \<^verbatim>\<open>index->have\<close> with no
  null test: a null \<^verbatim>\<open>index\<close> there is a fault.
\<close>

definition build_index_init :: "'z zlib \<Rightarrow> mem \<Rightarrow> cfile \<Rightarrow> 'z \<Rightarrow> 'z bstate" where
  "build_index_init Z M f s0 =
     \<lparr>b_in = f,
      b_strm = \<lparr>next_in = [], avail_out = 0, data_type = 0, zstate = s0\<rparr>,
      b_window = fresh M WINSIZE,
      totin = 0, totout = 0, last_out = 0, b_index = None\<rparr>"

definition build_index ::
  "'z zlib \<Rightarrow> mem \<Rightarrow> cfile \<Rightarrow> int \<Rightarrow> (fault + int \<times> access option) option" where
  "build_index Z M f span =
     (case z_inflateInit2 Z 47 of (ret, s0) \<Rightarrow>
        if ret \<noteq> Z_OK then Some (Inr (ret, None))
        else
          Option.bind (build_index_outer Z M span (build_index_init Z M f s0))
            (\<lambda>r. case r of
                    Failed e st \<Rightarrow> Some (Inr (e, None))
                  | Left ret st \<Rightarrow>
                      (case b_index st of
                         None \<Rightarrow> Some (Inl NullDeref)
                       | Some a \<Rightarrow>
                           if alloc_ok M (AllocPoints (have_n a))
                           then Some (Inr (have_n a, Some (a\<lparr>size_n := have_n a\<rparr>)))
                           else Some (Inl NullDeref))))"

subsection \<open>extract\<close>

record 'z estate =
  e_in :: cfile
  e_strm :: "'z z_stream"
  e_offset :: int
  e_skip :: bool
  e_buf :: "byte list"

text \<open>
  Lines 281-323, up to the loop: either the function returns (the value and the file), or
  a fault, or the loop is entered. \<^verbatim>\<open>strm.avail_out\<close> is not initialised here; the loop
  sets it before the first \<^verbatim>\<open>inflate\<close>.
\<close>

datatype 'z started = Return int cfile | Faulted fault | Enter "'z estate"

definition extract_start ::
  "'z zlib \<Rightarrow> cfile \<Rightarrow> access \<Rightarrow> int \<Rightarrow> byte list \<Rightarrow> int \<Rightarrow> 'z started" where
  "extract_start Z f idx off buf len =
     (if len < 0 then Return 0 f
      else case findpoint idx off of
        Inl flt \<Rightarrow> Faulted flt
      | Inr None \<Rightarrow> Return 0 f
      | Inr (Some here) \<Rightarrow>
          (case z_inflateInit2 Z (- 15) of (ret, s0) \<Rightarrow>
             if ret \<noteq> Z_OK then Return ret f
             else case fseeko f (inp here - (if bits here \<noteq> 0 then 1 else 0)) of (r1, f1) \<Rightarrow>
               if r1 = - 1 then Return r1 f1
               else if bits here \<noteq> 0 then
                 (case getc f1 of (c, f2) \<Rightarrow>
                    if c = - 1 then Return (if ferr f2 then Z_ERRNO else Z_DATA_ERROR) f2
                    else if 8 - bits here < 0 \<or> 32 \<le> 8 - bits here then Faulted BadShift
                    else Enter
                      \<lparr>e_in = f2,
                       e_strm = \<lparr>next_in = [], avail_out = 0, data_type = 0,
                                 zstate = z_inflateSetDictionary Z
                                   (z_inflatePrime Z s0 (bits here) (drop_bit (nat (8 - bits here)) c))
                                   (window here) WINSIZE\<rparr>,
                       e_offset = off - out here, e_skip = True, e_buf = buf\<rparr>)
               else Enter
                 \<lparr>e_in = f1,
                  e_strm = \<lparr>next_in = [], avail_out = 0, data_type = 0,
                            zstate = z_inflateSetDictionary Z s0 (window here) WINSIZE\<rparr>,
                  e_offset = off - out here, e_skip = True, e_buf = buf\<rparr>))"

text \<open>
  Lines 344-355: when the input is empty, one \<^verbatim>\<open>fread\<close> of \<open>CHUNK\<close> bytes; \<open>Inl\<close> is the
  \<^verbatim>\<open>goto extract_ret\<close> with its \<^verbatim>\<open>ret\<close>.
\<close>

definition extract_refill :: "'z estate \<Rightarrow> (int \<times> 'z estate) + 'z estate" where
  "extract_refill st =
     (if next_in (e_strm st) = []
      then (case fread (e_in st) CHUNK of (bs, f') \<Rightarrow>
              if ferr f' then Inl (Z_ERRNO, st\<lparr>e_in := f'\<rparr>)
              else if length bs = 0 then Inl (Z_DATA_ERROR, st\<lparr>e_in := f'\<rparr>)
              else Inr (st\<lparr>e_in := f', e_strm := (e_strm st)\<lparr>next_in := bs\<rparr>\<rparr>))
      else Inr st)"

text \<open>
  The body of the inner loop (lines 344-362): the refill, then one call of
  \<^verbatim>\<open>inflate\<close> with \<^verbatim>\<open>Z_NO_FLUSH\<close>. While skipping the output goes to
  \<^verbatim>\<open>discard\<close>; afterwards it goes to \<^verbatim>\<open>buf\<close>, at \<open>len - avail_out\<close>.
\<close>

definition extract_step :: "'z zlib \<Rightarrow> int \<Rightarrow> 'z estate \<Rightarrow> 'z estate ctl" where
  "extract_step Z len st =
     (case extract_refill st of
        Inl (e, st') \<Rightarrow> Goto e st'
      | Inr st1 \<Rightarrow>
          (case inflate Z (e_strm st1) Z_NO_FLUSH of (ret0, outb, strm2) \<Rightarrow>
             (let ret = (if ret0 = Z_NEED_DICT then Z_DATA_ERROR else ret0);
                  st2 = st1\<lparr>e_strm := strm2,
                            e_buf := (if e_skip st1 then e_buf st1
                                      else memcpy (e_buf st1) (nat len - avail_out (e_strm st1))
                                             outb 0 (length outb))\<rparr>
              in if ret = Z_MEM_ERROR \<or> ret = Z_DATA_ERROR then Goto ret st2
                 else if ret = Z_STREAM_END then Break ret st2
                 else Next ret st2)))"

text \<open>The inner loop \<^verbatim>\<open>do { ... } while (strm.avail_out != 0)\<close>.\<close>

partial_function (option) extract_inner ::
  "'z zlib \<Rightarrow> int \<Rightarrow> 'z estate \<Rightarrow> 'z estate lres option" where
  "extract_inner Z len st =
     (case extract_step Z len st of
        Goto r st' \<Rightarrow> Some (Failed r st')
      | Break r st' \<Rightarrow> Some (Left r st')
      | Next r st' \<Rightarrow>
          if avail_out (e_strm st') \<noteq> 0 then extract_inner Z len st'
          else Some (Left r st'))"

text \<open>Lines 326-340: where the next output goes, and how much of it.\<close>

definition extract_aim :: "int \<Rightarrow> 'z estate \<Rightarrow> 'z estate" where
  "extract_aim len st =
     (let st1 = (if e_offset st = 0 \<and> e_skip st
                 then st\<lparr>e_strm := (e_strm st)\<lparr>avail_out := nat len\<rparr>, e_skip := False\<rparr>
                 else st)
      in if e_offset st1 > int WINSIZE
         then st1\<lparr>e_strm := (e_strm st1)\<lparr>avail_out := WINSIZE\<rparr>,
                  e_offset := e_offset st1 - int WINSIZE\<rparr>
         else if e_offset st1 \<noteq> 0
         then st1\<lparr>e_strm := (e_strm st1)\<lparr>avail_out := nat (e_offset st1)\<rparr>, e_offset := 0\<rparr>
         else st1)"

text \<open>The outer loop \<^verbatim>\<open>do { ... } while (skip)\<close>, left early at the end of the stream.\<close>

partial_function (option) extract_outer ::
  "'z zlib \<Rightarrow> int \<Rightarrow> 'z estate \<Rightarrow> 'z estate lres option" where
  "extract_outer Z len st =
     Option.bind (extract_inner Z len (extract_aim len st))
       (\<lambda>r. case r of
               Failed e st' \<Rightarrow> Some (Failed e st')
             | Left ret st' \<Rightarrow>
                 if ret = Z_STREAM_END then Some (Left ret st')
                 else if e_skip st' then extract_outer Z len st'
                 else Some (Left ret st'))"

text \<open>
  \<^verbatim>\<open>extract(in, index, offset, buf, len)\<close>, named \<open>extract'\<close> here: the return value,
  the caller's buffer and the file afterwards; \<open>None\<close> is a run that never returns.
\<close>

definition extract' ::
  "'z zlib \<Rightarrow> cfile \<Rightarrow> access \<Rightarrow> int \<Rightarrow> byte list \<Rightarrow> int
     \<Rightarrow> (fault + int \<times> byte list \<times> cfile) option" where
  "extract' Z f idx off buf len =
     (case extract_start Z f idx off buf len of
        Return r f' \<Rightarrow> Some (Inr (r, buf, f'))
      | Faulted flt \<Rightarrow> Some (Inl flt)
      | Enter st \<Rightarrow>
          Option.bind (extract_outer Z len st)
            (\<lambda>r. case r of
                    Failed e st' \<Rightarrow> Some (Inr (e, e_buf st', e_in st'))
                  | Left ret st' \<Rightarrow>
                      Some (Inr (if e_skip st' then 0 else len - int (avail_out (e_strm st')),
                                 e_buf st', e_in st'))))"

subsection \<open>The query session\<close>

text \<open>\<^verbatim>\<open>struct tag_seekgzip\<close>; \<open>fp\<close> is \<open>None\<close> for a null \<^verbatim>\<open>FILE *\<close>.\<close>

record seekgzip =
  fp :: "cfile option"
  index :: access
  offset :: int
  errorcode :: int

definition seekgzip_seek :: "seekgzip \<Rightarrow> int \<Rightarrow> seekgzip" where
  "seekgzip_seek zs off = zs\<lparr>offset := off\<rparr>"

definition seekgzip_tell :: "seekgzip \<Rightarrow> int" where
  "seekgzip_tell zs = offset zs"

text \<open>\<^verbatim>\<open>seekgzip_read\<close>: the value returned, the buffer and the session afterwards.\<close>

definition seekgzip_read ::
  "'z zlib \<Rightarrow> seekgzip \<Rightarrow> byte list \<Rightarrow> int \<Rightarrow> (fault + int \<times> byte list \<times> seekgzip) option" where
  "seekgzip_read Z zs buffer sz =
     (case fp zs of
        None \<Rightarrow> Some (Inl NullDeref)
      | Some f \<Rightarrow>
          Option.bind (extract' Z f (index zs) (offset zs) buffer sz)
            (\<lambda>r. case r of
                    Inl flt \<Rightarrow> Some (Inl flt)
                  | Inr (len, buf', f') \<Rightarrow>
                      Some (Inr (len, buf',
                                 zs\<lparr>fp := Some f',
                                    offset := (if 0 < len then offset zs + len else offset zs)\<rparr>))))"

text \<open>
  Sessions live on the heap: a \<^verbatim>\<open>seekgzip_t *\<close> is \<open>None\<close> (null) or an address, and
  the store maps the addresses of live sessions to their content. \<^verbatim>\<open>seekgzip_close\<close>
  reads through the pointer and frees the object; on an address that is not live it is
  a use after free.
\<close>

type_synonym store = "nat \<rightharpoonup> seekgzip"

definition seekgzip_close :: "store \<Rightarrow> nat option \<Rightarrow> fault + store" where
  "seekgzip_close S zs =
     (case zs of
        None \<Rightarrow> Inr S
      | Some p \<Rightarrow> (case S p of None \<Rightarrow> Inl UseAfterFree | Some _ \<Rightarrow> Inr (S(p := None))))"

subsection \<open>The reader class of export.cpp\<close>

record reader =
  m_obj :: "nat option"

definition reader_close :: "store \<Rightarrow> reader \<Rightarrow> fault + store \<times> reader" where
  "reader_close S r =
     (case m_obj r of
        None \<Rightarrow> Inr (S, r)
      | Some p \<Rightarrow>
          (case seekgzip_close S (Some p) of
             Inl flt \<Rightarrow> Inl flt
           | Inr S' \<Rightarrow> Inr (S', r\<lparr>m_obj := None\<rparr>)))"

definition reader_seek :: "store \<Rightarrow> reader \<Rightarrow> int \<Rightarrow> fault + store" where
  "reader_seek S r off =
     (case m_obj r of
        None \<Rightarrow> Inr S
      | Some p \<Rightarrow>
          (case S p of None \<Rightarrow> Inl UseAfterFree
           | Some zs \<Rightarrow> Inr (S(p \<mapsto> seekgzip_seek zs off))))"

definition reader_tell :: "store \<Rightarrow> reader \<Rightarrow> fault + int" where
  "reader_tell S r =
     (case m_obj r of
        None \<Rightarrow> Inr (- 1)
      | Some p \<Rightarrow> (case S p of None \<Rightarrow> Inl UseAfterFree | Some zs \<Rightarrow> Inr (seekgzip_tell zs)))"





subsection \<open>seekgzip_build\<close>

text \<open>
  zlib's \<^verbatim>\<open>gzFile\<close> for writing is a parameter as well: \<open>'g\<close> is the state of an open
  file, \<^verbatim>\<open>gzopen\<close> can fail, \<^verbatim>\<open>gzwrite\<close> answers with its return value and the new
  state. The host gives the size of \<^verbatim>\<open>off_t\<close> and the bytes of an integer in memory.
\<close>

record 'g gzlib =
  gzopen_wb :: "string \<Rightarrow> 'g option"
  gzwrite :: "'g \<Rightarrow> byte list \<Rightarrow> int \<times> 'g"

record host =
  sizeof_off_t :: nat
  bytes_of :: "nat \<Rightarrow> int \<Rightarrow> byte list"

text \<open>
  The \<^verbatim>\<open>switch (len)\<close> of lines 434-443. No case ends in \<^verbatim>\<open>break\<close>: control enters at
  the matching label and runs every assignment from there to the end of the switch.
\<close>

definition switch_entry :: "int \<Rightarrow> nat" where
  "switch_entry len =
     (if len = Z_MEM_ERROR then 0 else if len = Z_DATA_ERROR then 1
      else if len = Z_ERRNO then 2 else 3)"

definition switch_body :: "int list" where
  "switch_body = [SEEKGZIP_OUTOFMEMORY, SEEKGZIP_DATAERROR, SEEKGZIP_READERROR, SEEKGZIP_ERROR]"

definition build_error_ret :: "int \<Rightarrow> int \<Rightarrow> int" where
  "build_error_ret ret len = foldl (\<lambda>r v. v) ret (drop (switch_entry len) switch_body)"

text \<open>Lines 465-476: the header and the points, every result of \<^verbatim>\<open>gzwrite\<close> dropped.\<close>

definition gzput :: "'g gzlib \<Rightarrow> 'g \<Rightarrow> byte list \<Rightarrow> 'g" where
  "gzput G gz bs = snd (gzwrite G gz bs)"

definition write_point :: "'g gzlib \<Rightarrow> host \<Rightarrow> 'g \<Rightarrow> point \<Rightarrow> 'g" where
  "write_point G H gz p =
     gzput G (gzput G (gzput G (gzput G gz
       (bytes_of H (sizeof_off_t H) (out p)))
       (bytes_of H (sizeof_off_t H) (inp p)))
       (bytes_of H 4 (bits p)))
       (take WINSIZE (window p))"

definition write_index :: "'g gzlib \<Rightarrow> host \<Rightarrow> 'g \<Rightarrow> access \<Rightarrow> fault + 'g" where
  "write_index G H gz a =
     (let gz1 = gzput G gz (map (\<lambda>c. of_nat (of_char c)) ''ZSEK'');
          gz2 = gzput G gz1 (bytes_of H 4 (int (sizeof_off_t H)));
          gz3 = gzput G gz2 (bytes_of H 4 (have_n a))
      in if int (length (list_p a)) < have_n a then Inl OutOfBounds
         else Inr (foldl (write_point G H) gz3 (take (nat (have_n a)) (list_p a))))"

text \<open>
  \<^verbatim>\<open>seekgzip_build(target)\<close>: the value returned and the index file as it was when
  \<^verbatim>\<open>gzclose\<close> was called (\<open>None\<close> when it was never opened). The file system is the map
  that \<^verbatim>\<open>fopen(target, "rb")\<close> looks the name up in.
\<close>

definition seekgzip_build ::
  "'z zlib \<Rightarrow> mem \<Rightarrow> 'g gzlib \<Rightarrow> host \<Rightarrow> (string \<rightharpoonup> cfile) \<Rightarrow> string
     \<Rightarrow> (fault + int \<times> 'g option) option" where
  "seekgzip_build Z M G H fs target =
     (case fs target of
        None \<Rightarrow> Some (Inr (SEEKGZIP_OPENERROR, None))
      | Some f \<Rightarrow>
          Option.bind (build_index Z M f SPAN)
            (\<lambda>b. case b of
                    Inl flt \<Rightarrow> Some (Inl flt)
                  | Inr (len, built) \<Rightarrow>
                      if len < 0 then Some (Inr (build_error_ret SEEKGZIP_SUCCESS len, None))
                      else if \<not> alloc_ok M (AllocBytes (length target + 4 + 1))
                      then Some (Inr (SEEKGZIP_OUTOFMEMORY, None))
                      else (case gzopen_wb G (target @ ''.idx'') of
                              None \<Rightarrow> Some (Inr (SEEKGZIP_OPENERROR, None))
                            | Some gz \<Rightarrow>
                                (case built of
                                   None \<Rightarrow> Some (Inl NullDeref)
                                 | Some a \<Rightarrow>
                                     (case write_index G H gz a of
                                        Inl flt \<Rightarrow> Some (Inl flt)
                                      | Inr gz' \<Rightarrow> Some (Inr (SEEKGZIP_SUCCESS, Some gz')))))))"

subsection \<open>Example environment\<close>

definition plain_mem :: mem where
  "plain_mem = \<lparr>alloc_ok = (\<lambda>_. True), junk = (\<lambda>_. 0)\<rparr>"

definition no_mem :: mem where
  "no_mem = \<lparr>alloc_ok = (\<lambda>_. False), junk = (\<lambda>_. 0)\<rparr>"

definition healthy_file :: "byte list \<Rightarrow> cfile" where
  "healthy_file bs = \<lparr>content = bs, fpos = 0, ferr = False, seekable = True, bad_from = None\<rparr>"

definition broken_file :: "byte list \<Rightarrow> cfile" where
  "broken_file bs = \<lparr>content = bs, fpos = 0, ferr = False, seekable = True, bad_from = Some 0\<rparr>"

type_synonym script = "(int \<times> nat \<times> byte list \<times> int) list"

definition scripted :: "script \<Rightarrow> script zlib" where
  "scripted sc =
     \<lparr>z_inflateInit2 = (\<lambda>w. (Z_OK, sc)),
      z_inflatePrime = (\<lambda>s b v. s),
      z_inflateSetDictionary = (\<lambda>s d n. s),
      z_inflate = (\<lambda>s fl inp n.
         case s of
           [] \<Rightarrow> \<lparr>r_ret = Z_DATA_ERROR, r_in = 0, r_out = [], r_data_type = 0, r_state = []\<rparr>
         | (a, b, c, d) # rest \<Rightarrow>
             \<lparr>r_ret = a, r_in = b, r_out = c, r_data_type = d, r_state = rest\<rparr>)\<rparr>"

definition logging_gz :: "byte list list gzlib" where
  "logging_gz = \<lparr>gzopen_wb = (\<lambda>name. Some []), gzwrite = (\<lambda>g bs. (int (length bs), g @ [bs]))\<rparr>"

definition failing_gz :: "byte list list gzlib" where
  "failing_gz = \<lparr>gzopen_wb = (\<lambda>name. Some []), gzwrite = (\<lambda>g bs. (0, g))\<rparr>"

definition closed_gz :: "byte list list gzlib" where
  "closed_gz = \<lparr>gzopen_wb = (\<lambda>name. None), gzwrite = (\<lambda>g bs. (0, g))\<rparr>"

definition lp64 :: host where
  "lp64 = \<lparr>sizeof_off_t = 8, bytes_of = (\<lambda>n v. map (\<lambda>i. word_of_int (v div 256 ^ i)) [0..<n])\<rparr>"

declare findpoint_loop.simps [simp del]

definition ex_point :: "int \<Rightarrow> point" where
  "ex_point n = \<lparr>out = n, inp = n + 10, bits = 0, window = []\<rparr>"

definition ex_index :: access where
  "ex_index = \<lparr>have_n = 3, size_n = 8, list_p = [ex_point 0, ex_point 10, ex_point 20]\<rparr>"

text \<open>
  The window as section 4.3 of the specification words it: \<open>WINSIZE - avail_out\<close> bytes
  from \<open>buf + WINSIZE - avail_out\<close>, followed by the first \<open>avail_out\<close> bytes of \<open>buf\<close>.
  It is compared with what \<open>addpoint\<close> stores.
\<close>

definition spec_linearize :: "nat \<Rightarrow> byte list \<Rightarrow> byte list" where
  "spec_linearize avail buf =
     take (WINSIZE - avail) (drop (WINSIZE - avail) buf) @ take avail buf"

definition ex_ring :: "byte list" where
  "ex_ring = replicate 8192 0 @ replicate 24576 1"

subsection \<open>Invariants of the index under construction\<close>

text \<open>
  The order that the points of a built index have: strictly increasing in \<open>out\<close>, except
  that several points may sit at \<open>out = 0\<close>.
\<close>

definition out_order :: "point \<Rightarrow> point \<Rightarrow> bool" where
  "out_order p q = (out p < out q \<or> (out p = 0 \<and> out q = 0))"

definition index_inv :: "access option \<Rightarrow> int \<Rightarrow> bool" where
  "index_inv ix lst =
     (case ix of
        None \<Rightarrow> lst = 0
      | Some a \<Rightarrow>
          have_n a = int (length (list_p a)) \<and> list_p a \<noteq> [] \<and>
          out (last (list_p a)) = lst \<and> sorted_wrt out_order (list_p a) \<and>
          list_all (\<lambda>p. 0 \<le> out p \<and> out p \<le> lst \<and> 0 \<le> bits p \<and> bits p \<le> 7 \<and>
                         length (window p) = WINSIZE) (list_p a))"

definition build_inv :: "'z bstate \<Rightarrow> bool" where
  "build_inv st =
     (avail_out (b_strm st) \<le> WINSIZE \<and> length (b_window st) = WINSIZE \<and>
      0 \<le> last_out st \<and> last_out st \<le> totout st \<and>
      index_inv (b_index st) (last_out st))"

text \<open>The step from \<open>st\<close> to \<open>st'\<close> appended one point, taken at the counters of \<open>st'\<close>.\<close>

definition point_added :: "'z bstate \<Rightarrow> 'z bstate \<Rightarrow> bool" where
  "point_added st st' =
     (case b_index st' of
        None \<Rightarrow> False
      | Some a \<Rightarrow>
          list_p a \<noteq> [] \<and>
          butlast (list_p a) = (case b_index st of None \<Rightarrow> [] | Some a0 \<Rightarrow> list_p a0) \<and>
          out (last (list_p a)) = totout st' \<and> inp (last (list_p a)) = totin st' \<and>
          bits (last (list_p a)) = data_type (b_strm st') AND 7)"

subsection \<open>Example files\<close>

text \<open>
  Two gzip members made of stored blocks, and the answers of zlib's \<^verbatim>\<open>inflate\<close> on them
  with \<^verbatim>\<open>Z_BLOCK\<close> when the whole file is in the input buffer (return code, input
  consumed, output, \<^verbatim>\<open>data_type\<close>). \<open>gz_AB\<close> holds the blocks "A" and "B";
  \<open>gz_empty_A\<close> starts with an empty stored block, followed by the block "A".
\<close>

definition gz_AB :: "byte list" where
  "gz_AB = [31, 139, 8, 0, 0, 0, 0, 0, 0, 3,  0, 1, 0, 254, 255, 65,  1, 1, 0, 254, 255, 66,
            7, 76, 105, 48,  2, 0, 0, 0]"

definition script_AB :: script where
  "script_AB = [(0, 10, [], 128), (0, 6, [65], 128), (0, 6, [66], 192), (1, 8, [], 64)]"

definition gz_empty_A :: "byte list" where
  "gz_empty_A = [31, 139, 8, 0, 0, 0, 0, 0, 0, 3,  0, 0, 0, 255, 255,  1, 1, 0, 254, 255, 65,
                 139, 158, 217, 211,  1, 0, 0, 0]"

definition script_empty_A :: script where
  "script_empty_A = [(0, 10, [], 128), (0, 5, [], 128), (0, 6, [65], 192), (1, 8, [], 64)]"

text \<open>What a run of \<open>build_index\<close> returned, and the points of the index it built.\<close>

definition ret_of :: "(fault + int \<times> access option) option \<Rightarrow> int option" where
  "ret_of r = (case r of Some (Inr (n, _)) \<Rightarrow> Some n | _ \<Rightarrow> None)"

definition points_of :: "(fault + int \<times> access option) option \<Rightarrow> (int \<times> int \<times> int) list" where
  "points_of r = (case r of Some (Inr (n, Some a)) \<Rightarrow> map (\<lambda>p. (out p, inp p, bits p)) (list_p a)
                  | _ \<Rightarrow> [])"

text \<open>The state that a loop body hands on, and whether it ended at its last line.\<close>

definition ctl_state :: "'s ctl \<Rightarrow> 's" where
  "ctl_state c = (case c of Goto _ s \<Rightarrow> s | Break _ s \<Rightarrow> s | Next _ s \<Rightarrow> s)"

definition is_Next :: "'s ctl \<Rightarrow> bool" where
  "is_Next c = (case c of Next _ _ \<Rightarrow> True | _ \<Rightarrow> False)"

text \<open>
  A state of the inner loop of \<open>build_index\<close> one byte short of \<open>SPAN\<close> bytes after the
  only access point so far, with an inflater that is about to deliver one byte and report
  the end of a block that is not the last.
\<close>

definition ex_before_span :: "script bstate" where
  "ex_before_span =
     \<lparr>b_in = healthy_file [],
      b_strm = \<lparr>next_in = [0, 1, 0, 254, 255, 66, 0], avail_out = 100, data_type = 128,
                zstate = [(0, 6, [66], 128)]\<rparr>,
      b_window = fresh plain_mem WINSIZE,
      totin = 5000, totout = SPAN - 1, last_out = 0,
      b_index = Some \<lparr>have_n = 1, size_n = 8,
                       list_p = [\<lparr>out = 0, inp = 10, bits = 0, window = fresh plain_mem WINSIZE\<rparr>]\<rparr>\<rparr>"

text \<open>The first pass through the inner loop of \<open>build_index\<close> on \<open>gz_AB\<close>.\<close>

definition ex_first_pass :: "script bstate" where
  "ex_first_pass =
     (build_index_init (scripted script_AB) plain_mem (healthy_file gz_AB) script_AB)
       \<lparr>b_strm := \<lparr>next_in = gz_AB, avail_out = 0, data_type = 0, zstate = script_AB\<rparr>\<rparr>"

text \<open>
  The discipline of the sliding window of \<open>build_index\<close>. \<open>w0\<close> is what the buffer held
  before the first call of \<^verbatim>\<open>inflate\<close> and \<open>hist\<close> the bytes that \<^verbatim>\<open>inflate\<close> has written
  since, oldest first. The next byte goes to position \<open>WINSIZE - avail_out\<close>; read round
  from there, the buffer holds the last \<open>WINSIZE\<close> bytes of \<open>w0 @ hist\<close>, oldest first.
\<close>

definition ring_holds :: "byte list \<Rightarrow> byte list \<Rightarrow> 'z bstate \<Rightarrow> bool" where
  "ring_holds w0 hist st =
     (length w0 = WINSIZE \<and> length (b_window st) = WINSIZE \<and>
      avail_out (b_strm st) \<le> WINSIZE \<and> totout st = int (length hist) \<and>
      rotate (WINSIZE - avail_out (b_strm st)) (b_window st) = drop (length hist) (w0 @ hist))"

text \<open>
  Every window of the index is the last \<open>WINSIZE\<close> bytes of \<open>w0\<close> followed by the first
  \<open>out\<close> bytes of \<open>hist\<close>, oldest first.
\<close>

definition windows_chronological :: "byte list \<Rightarrow> byte list \<Rightarrow> access option \<Rightarrow> bool" where
  "windows_chronological w0 hist ix =
     list_all (\<lambda>p. 0 \<le> out p \<and> nat (out p) \<le> length hist \<and>
                    window p = drop (nat (out p)) (w0 @ take (nat (out p)) hist))
       (case ix of None \<Rightarrow> [] | Some a \<Rightarrow> list_p a)"

text \<open>
  The run of \<open>build_index\<close> on \<open>gz_AB\<close> with span 0: the state when the inner loop is
  entered (after the \<^verbatim>\<open>fread\<close> of the outer loop), and the state after its first pass,
  which reads the gzip header.
\<close>

definition ex_fed :: "script bstate" where
  "ex_fed =
     (case fread (healthy_file gz_AB) CHUNK of
        (bs, f') \<Rightarrow>
          (build_index_init (scripted script_AB) plain_mem (healthy_file gz_AB) script_AB)
            \<lparr>b_in := f',
             b_strm := (b_strm (build_index_init (scripted script_AB) plain_mem
                                 (healthy_file gz_AB) script_AB))\<lparr>next_in := bs\<rparr>\<rparr>)"

definition ex_pass1 :: "script bstate" where
  "ex_pass1 = ctl_state (build_index_step (scripted script_AB) plain_mem 0 ex_fed)"

definition ex_session :: seekgzip where
  "ex_session = \<lparr>fp = Some (healthy_file gz_AB), index = ex_index, offset = 0, errorcode = 0\<rparr>"

text \<open>An allocator that has room for the index but not for the name of the index file.\<close>

definition name_mem :: mem where
  "name_mem = \<lparr>alloc_ok = (\<lambda>r. case r of AllocBytes _ \<Rightarrow> False | _ \<Rightarrow> True),
               junk = (\<lambda>_. 0)\<rparr>"


text \<open>An inflater that only records how it was set up, and fails on any input.\<close>

datatype zcall = Init int | Prime int int | SetDictionary "byte list" nat

definition recording :: "zcall list zlib" where
  "recording =
     \<lparr>z_inflateInit2 = (\<lambda>w. (Z_OK, [Init w])),
      z_inflatePrime = (\<lambda>s b v. s @ [Prime b v]),
      z_inflateSetDictionary = (\<lambda>s d n. s @ [SetDictionary d n]),
      z_inflate = (\<lambda>s fl inp n.
         \<lparr>r_ret = Z_DATA_ERROR, r_in = 0, r_out = [], r_data_type = 0, r_state = s\<rparr>)\<rparr>"

definition ex_bit_point :: point where
  "ex_bit_point = \<lparr>out = 0, inp = 3, bits = 3, window = replicate 32768 7\<rparr>"

definition ex_bit_index :: access where
  "ex_bit_index = \<lparr>have_n = 1, size_n = 1, list_p = [ex_bit_point]\<rparr>"




subsection \<open>What the code relies on from zlib's raw inflater\<close>

text \<open>
  A file that reads without error and can seek.
\<close>

definition healthy :: "cfile \<Rightarrow> bool" where
  "healthy f = (\<not> ferr f \<and> bad_from f = None \<and> seekable f)"

text \<open>
  The contract of raw \<^verbatim>\<open>inflate\<close> with \<^verbatim>\<open>Z_NO_FLUSH\<close> on the compressed bytes \<open>cont\<close>
  whose decompressed stream is \<open>D\<close>. \<open>R s pin pout\<close> reads: the inflater in state \<open>s\<close>
  has consumed the input before offset \<open>pin\<close> and delivered the output before offset
  \<open>pout\<close>, and the stream has not ended. In such a state input remains; given the next
  \<open>k\<close> bytes and room for \<open>n\<close>, \<^verbatim>\<open>inflate\<close> consumes at most \<open>k\<close> bytes, writes the next
  bytes of \<open>D\<close>, returns \<^verbatim>\<open>Z_OK\<close>, \<^verbatim>\<open>Z_BUF_ERROR\<close> or \<^verbatim>\<open>Z_STREAM_END\<close>, the last only
  when all of \<open>D\<close> is out; otherwise it has used up its input or its room and is again in
  such a state.
\<close>

definition raw_ok ::
  "'z zlib \<Rightarrow> byte list \<Rightarrow> byte list \<Rightarrow> ('z \<Rightarrow> nat \<Rightarrow> nat \<Rightarrow> bool) \<Rightarrow> bool" where
  "raw_ok Z cont D R =
     (\<forall>s pin pout. R s pin pout \<longrightarrow>
        pin < length cont \<and> pout \<le> length D \<and>
        (\<forall>k n. 0 < k \<longrightarrow> pin + k \<le> length cont \<longrightarrow>
           (let r = z_inflate Z s Z_NO_FLUSH (take k (drop pin cont)) n;
                m = length (take n (r_out r))
            in r_in r \<le> k \<and> take n (r_out r) = take m (drop pout D) \<and>
               (r_ret r = Z_OK \<or> r_ret r = Z_BUF_ERROR \<or> r_ret r = Z_STREAM_END) \<and>
               (r_ret r = Z_STREAM_END \<longrightarrow> pout + m = length D) \<and>
               (r_ret r \<noteq> Z_STREAM_END \<longrightarrow>
                  R (r_state r) (pin + r_in r) (pout + m) \<and> (r_in r = k \<or> m = n)))))"

text \<open>
  The inflater as \<open>extract\<close> sets it up for a point: raw, primed with the bits of the
  byte before \<open>in\<close> when \<open>bits \<noteq> 0\<close>, with the point's window as dictionary. A point is
  valid when that inflater, reading from \<open>in\<close>, is about to deliver \<open>D\<close> from \<open>out\<close> on.
\<close>

definition resume_state :: "'z zlib \<Rightarrow> byte list \<Rightarrow> point \<Rightarrow> 'z" where
  "resume_state Z cont p =
     z_inflateSetDictionary Z
       (if bits p \<noteq> 0
        then z_inflatePrime Z (snd (z_inflateInit2 Z (- 15))) (bits p)
               (drop_bit (nat (8 - bits p)) (uint (cont ! (nat (inp p) - 1))))
        else snd (z_inflateInit2 Z (- 15)))
       (window p) WINSIZE"

definition valid_point ::
  "'z zlib \<Rightarrow> byte list \<Rightarrow> ('z \<Rightarrow> nat \<Rightarrow> nat \<Rightarrow> bool) \<Rightarrow> point \<Rightarrow> bool" where
  "valid_point Z cont R p =
     (0 \<le> out p \<and> 0 \<le> inp p \<and> 0 \<le> bits p \<and> bits p \<le> 7 \<and>
      (bits p \<noteq> 0 \<longrightarrow> 1 \<le> inp p \<and> nat (inp p) - 1 < length cont) \<and>
      R (resume_state Z cont p) (nat (inp p)) (nat (out p)))"

text \<open>
  The offset in the file of the first byte the inflater has not consumed, and the
  invariant of the loops of \<open>extract\<close>: the input buffer holds the bytes of the file just
  before the file position, and the inflater is in a state of the contract there.
\<close>

definition e_pin :: "'z estate \<Rightarrow> nat" where
  "e_pin st = fpos (e_in st) - length (next_in (e_strm st))"

definition e_inv ::
  "byte list \<Rightarrow> ('z \<Rightarrow> nat \<Rightarrow> nat \<Rightarrow> bool) \<Rightarrow> 'z estate \<Rightarrow> nat \<Rightarrow> bool" where
  "e_inv cont R st pout =
     (healthy (e_in st) \<and> content (e_in st) = cont \<and>
      length (next_in (e_strm st)) \<le> fpos (e_in st) \<and> fpos (e_in st) \<le> length cont \<and>
      next_in (e_strm st) = take (length (next_in (e_strm st))) (drop (e_pin st) cont) \<and>
      R (zstate (e_strm st)) (e_pin st) pout)"

text \<open>
  The contract of \<^verbatim>\<open>inflate\<close> with \<^verbatim>\<open>Z_BLOCK\<close> on a stream opened with window bits 47,
  as \<open>build_index\<close> uses it, for the file \<open>cont\<close> whose decompressed stream is \<open>D\<close>.
  \<open>H s pin\<close>: \<open>s\<close> is a state that has read \<open>pin\<close> bytes, all of them header; \<open>A s pin pout\<close>:
  \<open>s\<close> has read \<open>pin\<close> bytes and written \<open>pout\<close> bytes. A call that goes on (\<open>continuing\<close>)
  writes the next bytes of \<open>D\<close>, and where it reports the end of a block that is not the
  last one (\<open>data_type\<close> has bit 128 and not bit 64), a raw stream restarted there is in
  the state \<open>R\<close> of \<open>raw_ok\<close>, whatever the window holds before the start of the stream
  (\<open>restart_ok\<close>).
\<close>

definition continuing :: "int \<Rightarrow> bool" where
  "continuing ret =
     (ret \<noteq> Z_STREAM_END \<and> ret \<noteq> Z_NEED_DICT \<and> ret \<noteq> Z_DATA_ERROR \<and> ret \<noteq> Z_MEM_ERROR)"

definition restart_ok ::
  "'z zlib \<Rightarrow> byte list \<Rightarrow> byte list \<Rightarrow> ('z \<Rightarrow> nat \<Rightarrow> nat \<Rightarrow> bool) \<Rightarrow> nat \<Rightarrow> nat \<Rightarrow> int \<Rightarrow> bool" where
  "restart_ok Z cont D R pin pout b =
     (\<forall>w0. length w0 = WINSIZE \<longrightarrow>
        valid_point Z cont R
          \<lparr>out = int pout, inp = int pin, bits = b, window = drop pout (w0 @ take pout D)\<rparr>)"

definition block_ok ::
  "'z zlib \<Rightarrow> byte list \<Rightarrow> byte list \<Rightarrow> ('z \<Rightarrow> nat \<Rightarrow> bool) \<Rightarrow> ('z \<Rightarrow> nat \<Rightarrow> nat \<Rightarrow> bool) \<Rightarrow>
   ('z \<Rightarrow> nat \<Rightarrow> nat \<Rightarrow> bool) \<Rightarrow> bool" where
  "block_ok Z cont D H A R =
     ((\<forall>s pin k n. H s pin \<longrightarrow> 0 < k \<longrightarrow> pin + k \<le> length cont \<longrightarrow> 0 < n \<longrightarrow>
         (let r = z_inflate Z s Z_BLOCK (take k (drop pin cont)) n
          in r_in r \<le> k \<and> take n (r_out r) = [] \<and>
             (continuing (r_ret r) \<longrightarrow>
                (if r_data_type r AND 128 \<noteq> 0
                 then r_data_type r AND 64 = 0 \<and> A (r_state r) (pin + r_in r) 0 \<and>
                      restart_ok Z cont D R (pin + r_in r) 0 (r_data_type r AND 7)
                 else H (r_state r) (pin + r_in r))))) \<and>
      (\<forall>s pin pout k n. A s pin pout \<longrightarrow> 0 < k \<longrightarrow> pin + k \<le> length cont \<longrightarrow> 0 < n \<longrightarrow>
         (let r = z_inflate Z s Z_BLOCK (take k (drop pin cont)) n;
              m = length (take n (r_out r))
          in r_in r \<le> k \<and> take n (r_out r) = take m (drop pout D) \<and> pout + m \<le> length D \<and>
             (r_ret r = Z_STREAM_END \<longrightarrow> pout + m = length D) \<and>
             (continuing (r_ret r) \<longrightarrow>
                A (r_state r) (pin + r_in r) (pout + m) \<and>
                (r_data_type r AND 128 \<noteq> 0 \<and> r_data_type r AND 64 = 0 \<longrightarrow>
                   restart_ok Z cont D R (pin + r_in r) (pout + m) (r_data_type r AND 7))))))"

definition zlib_ok ::
  "'z zlib \<Rightarrow> byte list \<Rightarrow> byte list \<Rightarrow> ('z \<Rightarrow> nat \<Rightarrow> bool) \<Rightarrow> ('z \<Rightarrow> nat \<Rightarrow> nat \<Rightarrow> bool) \<Rightarrow>
   ('z \<Rightarrow> nat \<Rightarrow> nat \<Rightarrow> bool) \<Rightarrow> bool" where
  "zlib_ok Z cont D H A R =
     (H (snd (z_inflateInit2 Z 47)) 0 \<and> fst (z_inflateInit2 Z (- 15)) = Z_OK \<and>
      block_ok Z cont D H A R \<and> raw_ok Z cont D R)"

text \<open>The state of \<open>build_index\<close> against the file and its decompressed stream.\<close>

definition b_pin :: "'z bstate \<Rightarrow> nat" where
  "b_pin st = fpos (b_in st) - length (next_in (b_strm st))"

definition b_io :: "byte list \<Rightarrow> 'z bstate \<Rightarrow> bool" where
  "b_io cont st =
     (healthy (b_in st) \<and> content (b_in st) = cont \<and>
      length (next_in (b_strm st)) \<le> fpos (b_in st) \<and> fpos (b_in st) \<le> length cont \<and>
      next_in (b_strm st) = take (length (next_in (b_strm st))) (drop (b_pin st) cont) \<and>
      totin st = int (b_pin st))"

definition b_ring :: "mem \<Rightarrow> byte list \<Rightarrow> 'z bstate \<Rightarrow> bool" where
  "b_ring M D st =
     (0 \<le> totout st \<and> nat (totout st) \<le> length D \<and>
      avail_out (b_strm st) \<le> WINSIZE \<and> length (b_window st) = WINSIZE \<and>
      rotate (WINSIZE - avail_out (b_strm st)) (b_window st) =
        drop (nat (totout st)) (fresh M WINSIZE @ take (nat (totout st)) D))"

definition ix_ok :: "'z zlib \<Rightarrow> byte list \<Rightarrow> ('z \<Rightarrow> nat \<Rightarrow> nat \<Rightarrow> bool) \<Rightarrow> access option \<Rightarrow> bool" where
  "ix_ok Z cont R ix =
     (case ix of None \<Rightarrow> True
      | Some a \<Rightarrow> list_p a \<noteq> [] \<and> out (hd (list_p a)) = 0 \<and>
                  (\<forall>p \<in> set (list_p a). valid_point Z cont R p))"

definition b_rel ::
  "('z \<Rightarrow> nat \<Rightarrow> bool) \<Rightarrow> ('z \<Rightarrow> nat \<Rightarrow> nat \<Rightarrow> bool) \<Rightarrow> 'z bstate \<Rightarrow> bool" where
  "b_rel H A st =
     (case b_index st of
        None \<Rightarrow> H (zstate (b_strm st)) (b_pin st) \<and> totout st = 0
      | Some a \<Rightarrow> A (zstate (b_strm st)) (b_pin st) (nat (totout st)))"

definition b_inv ::
  "'z zlib \<Rightarrow> mem \<Rightarrow> byte list \<Rightarrow> byte list \<Rightarrow> ('z \<Rightarrow> nat \<Rightarrow> bool) \<Rightarrow> ('z \<Rightarrow> nat \<Rightarrow> nat \<Rightarrow> bool) \<Rightarrow>
   ('z \<Rightarrow> nat \<Rightarrow> nat \<Rightarrow> bool) \<Rightarrow> 'z bstate \<Rightarrow> bool" where
  "b_inv Z M cont D H A R st =
     (b_io cont st \<and> b_ring M D st \<and> b_rel H A st \<and> ix_ok Z cont R (b_index st))"

text \<open>The spec's \<^verbatim>\<open>decompress_full()[o : o+L]\<close>, clipped to the length of the stream.\<close>

definition stream_slice :: "byte list \<Rightarrow> int \<Rightarrow> int \<Rightarrow> byte list" where
  "stream_slice D off len = take (nat len) (drop (nat off) D)"

text \<open>
  An inflater for a toy format, to run the code on: one header byte, then the bytes of
  the stream as they are (none of them 255), then the byte 255 that ends the stream.
  Opened with window bits 47 it reads the header first and reports the boundary after it
  (\<open>data_type = 128\<close>); opened raw it starts at the first byte of the stream.
\<close>

datatype toy = THead | TBody | TDone

fun toy_copy :: "byte list \<Rightarrow> nat \<Rightarrow> nat \<times> byte list \<times> bool" where
  "toy_copy [] n = (0, [], False)"
| "toy_copy (b # bs) n =
     (if b = 255 then (1, [], True)
      else if n = 0 then (0, [], False)
      else (case toy_copy bs (n - 1) of (c, ou, e) \<Rightarrow> (Suc c, b # ou, e)))"

definition toy_zlib :: "toy zlib" where
  "toy_zlib =
     \<lparr>z_inflateInit2 = (\<lambda>w. (Z_OK, if w = 47 then THead else TBody)),
      z_inflatePrime = (\<lambda>s b v. s),
      z_inflateSetDictionary = (\<lambda>s d n. s),
      z_inflate = (\<lambda>s fl inp n.
        case s of
          THead \<Rightarrow>
            (case inp of
               [] \<Rightarrow> \<lparr>r_ret = Z_BUF_ERROR, r_in = 0, r_out = [], r_data_type = 0, r_state = THead\<rparr>
             | _ # _ \<Rightarrow> \<lparr>r_ret = Z_OK, r_in = 1, r_out = [], r_data_type = 128, r_state = TBody\<rparr>)
        | TBody \<Rightarrow>
            (case toy_copy inp n of (c, ou, e) \<Rightarrow>
               \<lparr>r_ret = (if e then Z_STREAM_END else if c = 0 then Z_BUF_ERROR else Z_OK),
                r_in = c, r_out = ou, r_data_type = 64,
                r_state = (if e then TDone else TBody)\<rparr>)
        | TDone \<Rightarrow>
            \<lparr>r_ret = Z_STREAM_END, r_in = 0, r_out = [], r_data_type = 64, r_state = TDone\<rparr>)\<rparr>"

definition toy_H :: "toy \<Rightarrow> nat \<Rightarrow> bool" where
  "toy_H s pin = (s = THead \<and> pin = 0)"

definition toy_A :: "byte list \<Rightarrow> toy \<Rightarrow> nat \<Rightarrow> nat \<Rightarrow> bool" where
  "toy_A pay s pin pout = (s = TBody \<and> pin = Suc pout \<and> pout \<le> length pay)"

definition toy_gz :: "byte list" where
  "toy_gz = [0, 65, 66, 67, 255]"

lemma build_error_ret_neg: "build_error_ret r len = SEEKGZIP_ERROR"
  by (simp add: build_error_ret_def switch_entry_def switch_body_def)

lemma findpoint_loop_spec:
  assumes "sorted (map out l)"
    and "0 \<le> len" and "first + nat len \<le> length l"
    and "\<forall>i<first. out (l ! i) \<le> off"
    and "\<forall>i. first + nat len \<le> i \<and> i < length l \<longrightarrow> off < out (l ! i)"
  shows "\<exists>r. findpoint_loop l off first len = Some r \<and> r \<le> length l \<and>
           (\<forall>i<r. out (l ! i) \<le> off) \<and> (\<forall>i. r \<le> i \<and> i < length l \<longrightarrow> off < out (l ! i))"
  using assms
proof (induction l off first len rule: findpoint_loop.induct)
  case (1 l off first len)
  show ?case
  proof (cases "0 < len")
    case False
    with "1.prems" have "len = 0" by simp
    with "1.prems" show ?thesis by (subst findpoint_loop.simps) auto
  next
    case True
    define mid where "mid = first + nat (len div 2)"
    from True "1.prems" have mid_lt: "mid < length l" unfolding mid_def by linarith
    have mono: "\<And>i j. i \<le> j \<Longrightarrow> j < length l \<Longrightarrow> out (l ! i) \<le> out (l ! j)"
      using "1.prems"(1) by (metis (no_types, lifting) length_map nth_map order_le_less_trans sorted_iff_nth_mono)
    show ?thesis
    proof (cases "off < out (l ! mid)")
      case lt: True
      have a: "0 \<le> len div 2" using True by simp
      have b: "first + nat (len div 2) \<le> length l" using mid_lt mid_def by simp
      have c: "\<forall>i. first + nat (len div 2) \<le> i \<and> i < length l \<longrightarrow> off < out (l ! i)"
        using lt mono mid_def by (metis order_less_le_trans)
      from "1.IH"(1)[OF True _ _ "1.prems"(1) a b "1.prems"(4) c] mid_lt lt
      have "\<exists>r. findpoint_loop l off first (len div 2) = Some r \<and> r \<le> length l \<and>
           (\<forall>i<r. out (l ! i) \<le> off) \<and> (\<forall>i. r \<le> i \<and> i < length l \<longrightarrow> off < out (l ! i))"
        by (simp add: mid_def)
      then show ?thesis using True mid_lt lt by (subst findpoint_loop.simps) (simp add: mid_def)
    next
      case ge: False
      have a: "0 \<le> len - len div 2 - 1" using True by linarith
      have b: "first + nat (len div 2) + 1 + nat (len - len div 2 - 1) \<le> length l"
        using "1.prems"(3) True by linarith
      have c: "\<forall>i<first + nat (len div 2) + 1. out (l ! i) \<le> off"
      proof (intro allI impI)
        fix i assume "i < first + nat (len div 2) + 1"
        then have "i \<le> mid" by (simp add: mid_def)
        then have "out (l ! i) \<le> out (l ! mid)" using mono mid_lt by blast
        then show "out (l ! i) \<le> off" using ge by linarith
      qed
      have d: "\<forall>i. first + nat (len div 2) + 1 + nat (len - len div 2 - 1) \<le> i \<and> i < length l \<longrightarrow> off < out (l ! i)"
      proof -
        have "first + nat (len div 2) + 1 + nat (len - len div 2 - 1) = first + nat len"
          using True by linarith
        then show ?thesis using "1.prems"(5) by simp
      qed
      from "1.IH"(2)[OF True _ _ "1.prems"(1) a b c d] mid_lt ge
      have "\<exists>r. findpoint_loop l off (first + nat (len div 2) + 1) (len - len div 2 - 1) = Some r \<and> r \<le> length l \<and>
           (\<forall>i<r. out (l ! i) \<le> off) \<and> (\<forall>i. r \<le> i \<and> i < length l \<longrightarrow> off < out (l ! i))"
        by (simp add: mid_def)
      then show ?thesis using True mid_lt ge by (subst findpoint_loop.simps) (simp add: mid_def)
    qed
  qed
qed

lemma build_outer_eof:
  "fread (b_in st) CHUNK = ([], f') \<Longrightarrow> \<not> ferr f' \<Longrightarrow>
   build_index_outer Z M span st = Some (Failed Z_DATA_ERROR (st\<lparr>b_in := f'\<rparr>))"
  by (subst build_index_outer.simps) simp

lemma build_outer_ferr:
  "fread (b_in st) CHUNK = (bs, f') \<Longrightarrow> ferr f' \<Longrightarrow>
   build_index_outer Z M span st = Some (Failed Z_ERRNO (st\<lparr>b_in := f'\<rparr>))"
  by (subst build_index_outer.simps) simp

lemma build_outer_inner:
  "fread (b_in st) CHUNK = (bs, f') \<Longrightarrow> \<not> ferr f' \<Longrightarrow> bs \<noteq> [] \<Longrightarrow>
   build_index_outer Z M span st =
     Option.bind (build_index_inner Z M span (st\<lparr>b_in := f', b_strm := (b_strm st)\<lparr>next_in := bs\<rparr>\<rparr>))
       (\<lambda>r. case r of Failed e st' \<Rightarrow> Some (Failed e st')
             | Left ret st' \<Rightarrow> if ret \<noteq> Z_STREAM_END then build_index_outer Z M span st'
                               else Some (Left ret st'))"
  by (subst build_index_outer.simps) simp

lemma build_inner_goto:
  "build_index_step Z M span st = Goto r st' \<Longrightarrow> build_index_inner Z M span st = Some (Failed r st')"
  by (subst build_index_inner.simps) simp

lemma build_inner_break:
  "build_index_step Z M span st = Break r st' \<Longrightarrow> build_index_inner Z M span st = Some (Left r st')"
  by (subst build_index_inner.simps) simp

lemma build_inner_next:
  "build_index_step Z M span st = Next r st' \<Longrightarrow>
   build_index_inner Z M span st =
     (if next_in (b_strm st') \<noteq> [] then build_index_inner Z M span st' else Some (Left r st'))"
  by (subst build_index_inner.simps) simp

lemma ex_data_error:
  "build_index (scripted []) plain_mem (healthy_file []) SPAN = Some (Inr (Z_DATA_ERROR, None))"
  by (simp add: build_index_def scripted_def Z_OK_def build_outer_eof[where f'="healthy_file []"]
      build_index_init_def healthy_file_def fread_def readable_def)

lemma ex_read_error:
  "build_index (scripted []) plain_mem (broken_file [1]) SPAN = Some (Inr (Z_ERRNO, None))"
  by (simp add: build_index_def scripted_def Z_OK_def
      build_outer_ferr[where f'="(broken_file [1])\<lparr>ferr := True\<rparr>" and bs="[]"]
      build_index_init_def broken_file_def fread_def readable_def CHUNK_def)

lemma ex_mem_error:
  "build_index (scripted [(Z_OK, 1, [], 128)]) no_mem (healthy_file [1]) SPAN = Some (Inr (Z_MEM_ERROR, None))"
  apply (simp add: build_index_def scripted_def Z_OK_def build_index_init_def)
  apply (subst build_index_outer.simps)
  apply (simp add: fread_def readable_def healthy_file_def CHUNK_def)
  apply (subst build_index_inner.simps)
  apply (simp add: build_index_step_def reset_window_def inflate_def Let_def
       Z_OK_def Z_NEED_DICT_def Z_DATA_ERROR_def Z_MEM_ERROR_def Z_STREAM_END_def want_point_def
       addpoint_def no_mem_def)
  done

lemma findpoint_facts:
  assumes wf: "have_n idx = int (length (list_p idx))"
    and srt: "sorted (map out (list_p idx))"
  shows "\<exists>r\<le>length (list_p idx). findpoint_loop (list_p idx) off 0 (have_n idx) = Some r \<and>
           (\<forall>i<r. out (list_p idx ! i) \<le> off) \<and>
           (\<forall>i. r \<le> i \<and> i < length (list_p idx) \<longrightarrow> off < out (list_p idx ! i))"
  using findpoint_loop_spec[OF srt, of "have_n idx" 0 off] wf by auto

lemma strict_sorted_out:
  "sorted_wrt (\<lambda>p q. out p < out q) l \<Longrightarrow> sorted (map out l)"
  by (induction l) (auto simp: less_imp_le)

text \<open>
  C2. On an index whose points are strictly increasing in \<open>out\<close> (and whose \<open>have\<close>
  counts them), \<open>findpoint\<close> reads inside the list, returns none exactly when the
  offset is below the first point's \<open>out\<close> (or there is no point at all), and otherwise
  returns a point of the index with \<open>out \<le> offset\<close> that no other such point exceeds;
  when it returns none, \<open>extract\<close> returns 0 and leaves the buffer and the file alone.
\<close>

theorem findpoint_correct:
  assumes wf: "have_n idx = int (length (list_p idx))"
    and srt: "sorted_wrt (\<lambda>p q. out p < out q) (list_p idx)"
  shows "(\<exists>r. findpoint idx off = Inr r) \<and>
         (findpoint idx off = Inr None \<longleftrightarrow> list_p idx = [] \<or> off < out (hd (list_p idx))) \<and>
         (\<forall>p. findpoint idx off = Inr (Some p) \<longrightarrow>
               p \<in> set (list_p idx) \<and> out p \<le> off \<and>
               (\<forall>q \<in> set (list_p idx). out q \<le> off \<longrightarrow> out q \<le> out p)) \<and>
         (findpoint idx off = Inr None \<longrightarrow> extract' Z f idx off buf len = Some (Inr (0, buf, f)))"
proof -
  let ?l = "list_p idx"
  from findpoint_facts[OF wf strict_sorted_out[OF srt], of off]
  obtain r where r: "r \<le> length ?l" "findpoint_loop ?l off 0 (have_n idx) = Some r"
    and below: "\<forall>i<r. out (?l ! i) \<le> off"
    and above: "\<forall>i. r \<le> i \<and> i < length ?l \<longrightarrow> off < out (?l ! i)" by blast
  have fp: "findpoint idx off = Inr (if r = 0 then None else Some (?l ! (r - 1)))"
    by (simp add: findpoint_def r)
  have none_iff: "r = 0 \<longleftrightarrow> ?l = [] \<or> off < out (hd ?l)"
  proof
    assume "r = 0"
    then show "?l = [] \<or> off < out (hd ?l)"
      using above by (cases ?l) auto
  next
    assume h: "?l = [] \<or> off < out (hd ?l)"
    show "r = 0"
    proof (rule ccontr)
      assume "r \<noteq> 0"
      then have "0 < r" by simp
      with below have "out (?l ! 0) \<le> off" by blast
      moreover from \<open>0 < r\<close> r(1) have "?l \<noteq> []" by auto
      ultimately show False using h by (cases ?l) auto
    qed
  qed
  have some: "p \<in> set ?l \<and> out p \<le> off \<and> (\<forall>q \<in> set ?l. out q \<le> off \<longrightarrow> out q \<le> out p)"
    if "findpoint idx off = Inr (Some p)" for p
  proof -
    from that fp have r0: "r \<noteq> 0" and p: "p = ?l ! (r - 1)" by (auto split: if_splits)
    have lt: "r - 1 < length ?l" using r0 r(1) by simp
    have "out q \<le> out p" if q: "q \<in> set ?l" "out q \<le> off" for q
    proof -
      from q(1) obtain i where i: "i < length ?l" "q = ?l ! i" by (auto simp: in_set_conv_nth)
      have "i < r" using above i q(2) by (meson not_le_imp_less not_less)
      then have "i \<le> r - 1" by simp
      moreover have "sorted (map out ?l)" by (rule strict_sorted_out[OF srt])
      ultimately show ?thesis using lt i p
        by (metis length_map nth_map sorted_iff_nth_mono)
    qed
    moreover have "out p \<le> off" using below r0 p by simp
    moreover have "p \<in> set ?l" using p lt by simp
    ultimately show ?thesis by blast
  qed
  have ex: "findpoint idx off = Inr None \<Longrightarrow> extract' Z f idx off buf len = Some (Inr (0, buf, f))"
    by (simp add: extract'_def extract_start_def)
  show ?thesis using fp none_iff some ex by auto
qed

theorem findpoint_correct_witness:
  "have_n ex_index = int (length (list_p ex_index)) \<and>
   sorted_wrt (\<lambda>p q. out p < out q) (list_p ex_index) \<and>
   findpoint ex_index 15 = Inr (Some (ex_point 10)) \<and>
   out (ex_point 10) \<le> 15 \<and>
   findpoint ex_index (- 1) = Inr None \<and>
   extract' (scripted []) (healthy_file []) ex_index (- 1) [7, 7] 2 = Some (Inr (0, [7, 7], healthy_file []))"
proof -
  have h1: "have_n ex_index = int (length (list_p ex_index))" by (simp add: ex_index_def)
  have h2: "sorted_wrt (\<lambda>p q. out p < out q) (list_p ex_index)"
    by (simp add: ex_index_def ex_point_def)
  have e1: "findpoint ex_index 15 = Inr (Some (ex_point 10))"
    by (simp add: findpoint_def ex_index_def findpoint_loop.simps ex_point_def)
  have e2: "findpoint ex_index (- 1) = Inr None"
    by (simp add: findpoint_def ex_index_def findpoint_loop.simps ex_point_def)
  from findpoint_correct[OF h1 h2, of 15 "scripted []" "healthy_file []" "[7, 7]" 2] e1
  have c1: "out (ex_point 10) \<le> 15" by simp
  from findpoint_correct[OF h1 h2, of "- 1" "scripted []" "healthy_file []" "[7, 7]" 2] e2
  have c2: "extract' (scripted []) (healthy_file []) ex_index (- 1) [7, 7] 2 = Some (Inr (0, [7, 7], healthy_file []))"
    by simp
  show ?thesis using h1 h2 e1 e2 c1 c2 by simp
qed

text \<open>
  C7. Whenever \<open>build_index\<close> returns a negative code, whichever it is,
  \<open>seekgzip_build\<close> returns \<open>SEEKGZIP_ERROR\<close>, which is none of the specific codes for
  memory, data and read errors: the switch runs from the matching label to its last
  assignment.
\<close>

theorem build_error_is_generic:
  assumes "fs target = Some f"
    and "build_index Z M f SPAN = Some (Inr (len, built))"
    and "len < 0"
  shows "seekgzip_build Z M G H fs target = Some (Inr (SEEKGZIP_ERROR, None)) \<and>
         SEEKGZIP_ERROR \<notin> {SEEKGZIP_OUTOFMEMORY, SEEKGZIP_DATAERROR, SEEKGZIP_READERROR}"
  using assms
  by (simp add: seekgzip_build_def build_error_ret_neg SEEKGZIP_ERROR_def
      SEEKGZIP_OUTOFMEMORY_def SEEKGZIP_DATAERROR_def SEEKGZIP_READERROR_def)

theorem build_error_is_generic_witness:
  "seekgzip_build (scripted [(Z_OK, 1, [], 128)]) no_mem logging_gz lp64
      [''a.gz'' \<mapsto> healthy_file [1]] ''a.gz'' = Some (Inr (SEEKGZIP_ERROR, None)) \<and>
   build_index (scripted [(Z_OK, 1, [], 128)]) no_mem (healthy_file [1]) SPAN = Some (Inr (Z_MEM_ERROR, None)) \<and>
   seekgzip_build (scripted []) plain_mem logging_gz lp64
      [''a.gz'' \<mapsto> healthy_file []] ''a.gz'' = Some (Inr (SEEKGZIP_ERROR, None)) \<and>
   build_index (scripted []) plain_mem (healthy_file []) SPAN = Some (Inr (Z_DATA_ERROR, None)) \<and>
   seekgzip_build (scripted []) plain_mem logging_gz lp64
      [''a.gz'' \<mapsto> broken_file [1]] ''a.gz'' = Some (Inr (SEEKGZIP_ERROR, None)) \<and>
   build_index (scripted []) plain_mem (broken_file [1]) SPAN = Some (Inr (Z_ERRNO, None))"
proof -
  have m: "Z_MEM_ERROR < 0" and d: "Z_DATA_ERROR < 0" and e: "Z_ERRNO < 0"
    by (simp_all add: Z_MEM_ERROR_def Z_DATA_ERROR_def Z_ERRNO_def)
  have f1: "[''a.gz'' \<mapsto> healthy_file [1]] ''a.gz'' = Some (healthy_file [1])" by simp
  have f2: "[''a.gz'' \<mapsto> healthy_file []] ''a.gz'' = Some (healthy_file [])" by simp
  have f3: "[''a.gz'' \<mapsto> broken_file [1]] ''a.gz'' = Some (broken_file [1])" by simp
  show ?thesis
    using build_error_is_generic[where fs="[''a.gz'' \<mapsto> healthy_file [1]]" and target="''a.gz''"
          and G=logging_gz and H=lp64, OF f1 ex_mem_error m]
      build_error_is_generic[where fs="[''a.gz'' \<mapsto> healthy_file []]" and target="''a.gz''"
          and G=logging_gz and H=lp64, OF f2 ex_data_error d]
      build_error_is_generic[where fs="[''a.gz'' \<mapsto> broken_file [1]]" and target="''a.gz''"
          and G=logging_gz and H=lp64, OF f3 ex_read_error e]
      ex_mem_error ex_data_error ex_read_error
    by simp
qed

lemma length_fresh [simp]: "length (fresh M n) = n"
  by (simp add: fresh_def)

lemma WINSIZE_pos [simp]: "0 < WINSIZE"
  by (simp add: WINSIZE_def)

lemma addpoint_window_bytes:
  assumes "left \<le> WINSIZE" and "length win = WINSIZE"
  shows "(let w0 = fresh M WINSIZE;
              w1 = (if left \<noteq> 0 then memcpy w0 0 win (WINSIZE - left) left else w0)
          in (if left < WINSIZE then memcpy w1 left win 0 (WINSIZE - left) else w1))
         = drop (WINSIZE - left) win @ take (WINSIZE - left) win"
proof -
  consider "left = 0" | "0 < left" "left < WINSIZE" | "left = WINSIZE"
    using assms(1) by linarith
  then show ?thesis
  proof cases
    case 1
    then show ?thesis using assms by (simp add: memcpy_def Let_def)
  next
    case 2
    then show ?thesis using assms by (simp add: memcpy_def Let_def)
  next
    case 3
    then show ?thesis using assms by (simp add: memcpy_def Let_def)
  qed
qed

lemma addpoint_Some:
  assumes "left \<le> WINSIZE" and "length win = WINSIZE"
    and "addpoint M idx b i ou left win = Some a"
  shows "list_p a = (case idx of None \<Rightarrow> [] | Some a0 \<Rightarrow> list_p a0) @
            [\<lparr>out = ou, inp = i, bits = b,
              window = drop (WINSIZE - left) win @ take (WINSIZE - left) win\<rparr>] \<and>
         have_n a = (case idx of None \<Rightarrow> 0 | Some a0 \<Rightarrow> have_n a0) + 1"
  using assms(3) addpoint_window_bytes[OF assms(1,2), of M]
  by (auto simp: addpoint_def Let_def split: option.splits if_splits)

lemma drop_take_rotate:
  assumes "m \<le> length xs"
  shows "drop m xs @ take m xs = rotate m xs"
proof (cases "m = length xs")
  case True
  then show ?thesis by (subst rotate_conv_mod) simp
next
  case False
  with assms show ?thesis by (simp add: rotate_drop_take)
qed

text \<open>
  The window of \<open>build_index\<close> is a ring: after \<^verbatim>\<open>inflate\<close> wrote \<open>outb\<close> into it, the
  ring read from its write position is the last \<open>WINSIZE\<close> bytes of what came before
  the stream (the fresh buffer) followed by the stream so far.
\<close>

lemma ring_advance:
  assumes lw: "length win = WINSIZE" and n: "0 < n" "n \<le> WINSIZE" and lo: "length outb \<le> n"
    and t: "t \<le> length D" and l0: "length w0 = WINSIZE"
    and ring: "rotate (WINSIZE - n) win = drop t (w0 @ take t D)"
    and ob: "outb = take (length outb) (drop t D)"
  shows "rotate (WINSIZE - (n - length outb)) (memcpy win (WINSIZE - n) outb 0 (length outb)) =
         drop (t + length outb) (w0 @ take (t + length outb) D)"
proof -
  define wp where "wp = WINSIZE - n"
  define mo where "mo = length outb"
  have wp: "wp < WINSIZE" "wp + n = WINSIZE" using n by (simp_all add: wp_def)
  have mo: "wp + mo \<le> WINSIZE" using lo wp by (simp add: mo_def)
  have w': "memcpy win wp outb 0 mo = take wp win @ outb @ drop (wp + mo) win"
    by (simp add: memcpy_def mo_def)
  have old: "rotate wp win = drop wp win @ take wp win"
    using wp lw by (simp add: rotate_drop_take)
  have idx: "WINSIZE - (n - mo) = wp + mo" using wp lo by (simp add: mo_def)
  have new: "rotate (wp + mo) (take wp win @ outb @ drop (wp + mo) win) =
             drop (wp + mo) win @ take wp win @ outb"
  proof (cases "wp + mo = WINSIZE")
    case True
    have len: "length (take wp win @ outb @ drop (wp + mo) win) = WINSIZE"
      using lw mo by (simp add: mo_def)
    have "rotate (wp + mo) (take wp win @ outb @ drop (wp + mo) win) =
          take wp win @ outb @ drop (wp + mo) win"
      using len True by (subst rotate_conv_mod) simp
    then show ?thesis using True lw by simp
  next
    case False
    then have lt: "wp + mo < WINSIZE" using mo by simp
    have len: "length (take wp win @ outb @ drop (wp + mo) win) = WINSIZE"
      using lw mo by (simp add: mo_def)
    have l1: "length (take wp win @ outb) = wp + mo" using lw wp by (simp add: mo_def)
    have "rotate (wp + mo) ((take wp win @ outb) @ drop (wp + mo) win) =
          drop (wp + mo) win @ (take wp win @ outb)"
      using l1 by (metis rotate_append)
    then show ?thesis by simp
  qed
  have a: "drop (wp + mo) win @ take wp win = drop mo (rotate wp win)"
    using old lw mo by (simp add: add.commute)
  have b: "take (t + mo) D = take t D @ outb"
    using ob by (simp add: take_add mo_def)
  have "drop (t + mo) (w0 @ take (t + mo) D) = drop (t + mo) (w0 @ take t D) @ outb"
    using b t l0 lo n by (simp add: mo_def min_def)
  also have "drop (t + mo) (w0 @ take t D) = drop mo (drop t (w0 @ take t D))"
    by (simp only: drop_drop add.commute[of mo t])
  also have "\<dots> = drop mo (rotate wp win)" using ring by (simp add: wp_def)
  finally show ?thesis using new a w' idx by (simp add: wp_def mo_def)
qed

lemma inflate_facts:
  assumes "inflate Z s fl = (r, outb, s')"
  shows "length outb \<le> avail_out s" and "avail_out s' = avail_out s - length outb"
    and "length (next_in s') \<le> length (next_in s)"
    and "outb = take (avail_out s) (r_out (z_inflate Z (zstate s) fl (next_in s) (avail_out s)))"
    and "r = r_ret (z_inflate Z (zstate s) fl (next_in s) (avail_out s))"
    and "data_type s' = r_data_type (z_inflate Z (zstate s) fl (next_in s) (avail_out s))"
    and "zstate s' = r_state (z_inflate Z (zstate s) fl (next_in s) (avail_out s))"
    and "next_in s' = drop (r_in (z_inflate Z (zstate s) fl (next_in s) (avail_out s))) (next_in s)"
  using assms by (auto simp: inflate_def Let_def)

lemma length_memcpy:
  "d + n \<le> length dst \<Longrightarrow> s + n \<le> length src \<Longrightarrow> length (memcpy dst d src s n) = length dst"
  by (simp add: memcpy_def)

text \<open>What one pass through the body of the inner loop of \<open>build_index\<close> does.\<close>


lemma build_index_step_Next:
  assumes "build_index_step Z M span st = Next r st'"
  shows "\<exists>outb.
      inflate Z (reset_window (b_strm st)) Z_BLOCK = (r, outb, b_strm st') \<and>
      r \<noteq> Z_NEED_DICT \<and> r \<noteq> Z_MEM_ERROR \<and> r \<noteq> Z_DATA_ERROR \<and> r \<noteq> Z_STREAM_END \<and>
      b_in st' = b_in st \<and>
      b_window st' = memcpy (b_window st) (WINSIZE - avail_out (reset_window (b_strm st))) outb 0 (length outb) \<and>
      totin st' = totin st + int (length (next_in (reset_window (b_strm st)))) - int (length (next_in (b_strm st'))) \<and>
      totout st' = totout st + int (avail_out (reset_window (b_strm st))) - int (avail_out (b_strm st')) \<and>
      (if want_point (data_type (b_strm st')) (totout st') (last_out st) span
       then \<exists>a. addpoint M (b_index st) (data_type (b_strm st') AND 7) (totin st') (totout st')
                    (avail_out (b_strm st')) (b_window st') = Some a \<and>
                 b_index st' = Some a \<and> last_out st' = totout st'
       else b_index st' = b_index st \<and> last_out st' = last_out st)"
  using assms
  by (auto simp: build_index_step_def  Let_def
      split: prod.splits if_splits option.splits)

lemma build_index_step_Break:
  assumes "build_index_step Z M span st = Break r st'"
  shows "\<exists>outb.
      inflate Z (reset_window (b_strm st)) Z_BLOCK = (r, outb, b_strm st') \<and>
      r = Z_STREAM_END \<and> b_in st' = b_in st \<and> b_index st' = b_index st \<and> last_out st' = last_out st \<and>
      b_window st' = memcpy (b_window st) (WINSIZE - avail_out (reset_window (b_strm st))) outb 0 (length outb) \<and>
      totin st' = totin st + int (length (next_in (reset_window (b_strm st)))) - int (length (next_in (b_strm st'))) \<and>
      totout st' = totout st + int (avail_out (reset_window (b_strm st))) - int (avail_out (b_strm st'))"
  using assms
  by (auto simp: build_index_step_def Let_def Z_STREAM_END_def Z_NEED_DICT_def Z_DATA_ERROR_def
      split: prod.splits if_splits option.splits)

text \<open>Invariants of the two loops of \<open>build_index\<close>, for the runs that return.\<close>

lemma build_inner_inv:
  assumes run: "build_index_inner Z M span st = Some res"
    and inv: "I st" and ne: "next_in (b_strm st) \<noteq> []"
    and pres: "\<forall>s r s'. I s \<longrightarrow> next_in (b_strm s) \<noteq> [] \<longrightarrow>
                 build_index_step Z M span s = Next r s' \<longrightarrow> I s'"
    and brk: "\<forall>s r s'. I s \<longrightarrow> next_in (b_strm s) \<noteq> [] \<longrightarrow>
                 build_index_step Z M span s = Break r s' \<longrightarrow> Q s'"
  shows "\<forall>r s'. res = Left r s' \<longrightarrow>
           (r = Z_STREAM_END \<and> Q s') \<or> (r \<noteq> Z_STREAM_END \<and> I s' \<and> next_in (b_strm s') = [])"
  using run inv ne pres brk
proof (induction Z M span st res rule: build_index_inner.raw_induct[rotated 1, consumes 1])
  case (1 inner Z M span st res)
  note body = "1.hyps" and Ist = "1.prems"(1) and ne = "1.prems"(2) and pres = "1.prems"(3)
    and brk = "1.prems"(4)
  show ?case
  proof (cases "build_index_step Z M span st")
    case (Goto r s')
    with body show ?thesis by auto
  next
    case (Break r s')
    from build_index_step_Break[OF Break] have "r = Z_STREAM_END" by blast
    moreover have "Q s'" using brk Ist ne Break by blast
    ultimately show ?thesis using Break body by auto
  next
    case (Next r s')
    have I': "I s'" using pres Ist ne Next by blast
    from build_index_step_Next[OF Next] have rne: "r \<noteq> Z_STREAM_END" by blast
    show ?thesis
    proof (cases "next_in (b_strm s') \<noteq> []")
      case True
      with body Next have "inner Z M span s' = Some res" by simp
      from "1.IH"[OF this I' True pres brk] show ?thesis by blast
    next
      case False
      with body Next have "res = Left r s'" by simp
      with I' rne False show ?thesis by simp
    qed
  qed
qed

lemma build_outer_inv:
  assumes run: "build_index_outer Z M span st = Some res"
    and inv: "J st"
    and feed: "\<forall>s bs f'. J s \<longrightarrow> fread (b_in s) CHUNK = (bs, f') \<longrightarrow> \<not> ferr f' \<longrightarrow> bs \<noteq> [] \<longrightarrow>
                 I (s\<lparr>b_in := f', b_strm := (b_strm s)\<lparr>next_in := bs\<rparr>\<rparr>)"
    and pres: "\<forall>s r s'. I s \<longrightarrow> next_in (b_strm s) \<noteq> [] \<longrightarrow>
                 build_index_step Z M span s = Next r s' \<longrightarrow> I s'"
    and brk: "\<forall>s r s'. I s \<longrightarrow> next_in (b_strm s) \<noteq> [] \<longrightarrow>
                 build_index_step Z M span s = Break r s' \<longrightarrow> Q s'"
    and head: "\<forall>s. I s \<longrightarrow> next_in (b_strm s) = [] \<longrightarrow> J s"
  shows "\<forall>r s'. res = Left r s' \<longrightarrow> r = Z_STREAM_END \<and> Q s'"
  using run inv feed pres brk head
proof (induction Z M span st res rule: build_index_outer.raw_induct[rotated 1, consumes 1])
  case (1 outer Z M span st res)
  note body = "1.hyps" and Jst = "1.prems"(1) and feed = "1.prems"(2) and pres = "1.prems"(3)
    and brk = "1.prems"(4) and head = "1.prems"(5)
  obtain bs f' where fr: "fread (b_in st) CHUNK = (bs, f')" by (cases "fread (b_in st) CHUNK")
  show ?case
  proof (cases "ferr f' \<or> bs = []")
    case True
    with body fr show ?thesis by (auto split: if_splits)
  next
    case False
    let ?s1 = "st\<lparr>b_in := f', b_strm := (b_strm st)\<lparr>next_in := bs\<rparr>\<rparr>"
    have I1: "I ?s1" using feed Jst fr False by blast
    have ne1: "next_in (b_strm ?s1) \<noteq> []" using False by simp
    from body fr False obtain r1 where
      inner: "build_index_inner Z M span ?s1 = Some r1" and
      rest: "(case r1 of Failed e st' \<Rightarrow> Some (Failed e st')
              | Left ret st' \<Rightarrow> if ret \<noteq> Z_STREAM_END then outer Z M span st'
                                else Some (Left ret st')) = Some res"
      by (auto simp: bind_eq_Some_conv)
    note post = build_inner_inv[OF inner I1 ne1 pres brk, rule_format]
    show ?thesis
    proof (cases r1)
      case (Failed e s')
      with rest show ?thesis by auto
    next
      case (Left ret s')
      show ?thesis
      proof (cases "ret = Z_STREAM_END")
        case True
        with post[OF Left] rest Left show ?thesis by auto
      next
        case False
        with post[OF Left] have "J s'" using head by blast
        moreover from False rest Left have "outer Z M span s' = Some res" by simp
        ultimately show ?thesis using "1.IH"[OF _ _ feed pres brk head] by blast
      qed
    qed
  qed
qed

lemma reset_window_facts:
  "avail_out s \<le> WINSIZE \<Longrightarrow> avail_out (reset_window s) \<le> WINSIZE"
  "0 < avail_out (reset_window s)"
  "next_in (reset_window s) = next_in s" "zstate (reset_window s) = zstate s"
  by (auto simp: reset_window_def)

lemma and7_bounds: "0 \<le> (x::int) AND 7" "(x::int) AND 7 \<le> 7"
  by (simp_all add: AND_upper2)

lemma addpoint_list:
  assumes "addpoint M idx b i ou left win = Some a"
  shows "\<exists>w. list_p a = (case idx of None \<Rightarrow> [] | Some a0 \<Rightarrow> list_p a0) @
            [\<lparr>out = ou, inp = i, bits = b, window = w\<rparr>]"
  using assms by (auto simp: addpoint_def Let_def split: option.splits if_splits)

lemma index_inv_addpoint:
  assumes inv: "index_inv ix lst" and lst: "0 \<le> lst" "lst \<le> tout"
    and want: "tout = 0 \<or> tout - lst > span" and span: "0 \<le> span"
    and left: "left \<le> WINSIZE" and win: "length win = WINSIZE"
    and add: "addpoint M ix (dt AND 7) tin tout left win = Some a"
  shows "index_inv (Some a) tout"
proof -
  let ?old = "case ix of None \<Rightarrow> [] | Some a0 \<Rightarrow> list_p a0"
  let ?p = "\<lparr>out = tout, inp = tin, bits = dt AND 7,
             window = drop (WINSIZE - left) win @ take (WINSIZE - left) win\<rparr>"
  from addpoint_Some[OF left win add]
  have l: "list_p a = ?old @ [?p]"
    and h: "have_n a = (case ix of None \<Rightarrow> 0 | Some a0 \<Rightarrow> have_n a0) + 1" by auto
  have old_sorted: "sorted_wrt out_order ?old"
    using inv by (auto simp: index_inv_def split: option.splits)
  have old_all: "\<forall>x \<in> set ?old. 0 \<le> out x \<and> out x \<le> lst \<and> 0 \<le> bits x \<and> bits x \<le> 7 \<and>
                   length (window x) = WINSIZE"
    using inv by (auto simp: index_inv_def list_all_iff split: option.splits)
  have old_have: "(case ix of None \<Rightarrow> 0 | Some a0 \<Rightarrow> have_n a0) = int (length ?old)"
    using inv by (auto simp: index_inv_def split: option.splits)
  have ord: "\<forall>x \<in> set ?old. out_order x ?p"
  proof
    fix x assume x: "x \<in> set ?old"
    with old_all have b: "0 \<le> out x" "out x \<le> lst" by auto
    from want show "out_order x ?p"
    proof
      assume "tout = 0"
      with lst b show ?thesis by (simp add: out_order_def)
    next
      assume "tout - lst > span"
      with span b show ?thesis by (simp add: out_order_def)
    qed
  qed
  have wl: "length (drop (WINSIZE - left) win @ take (WINSIZE - left) win) = WINSIZE"
    using left win by simp
  have tout0: "0 \<le> tout" using lst by linarith
  show ?thesis
    unfolding index_inv_def
    using l h old_sorted old_all old_have ord wl tout0 lst
    by (auto simp: sorted_wrt_append list_all_iff and7_bounds)
qed

lemma build_inv_Next:
  assumes inv: "build_inv st" and span: "0 \<le> span"
    and step: "build_index_step Z M span st = Next r st'"
  shows "build_inv st'"
proof -
  from build_index_step_Next[OF step] obtain outb where
    infl: "inflate Z (reset_window (b_strm st)) Z_BLOCK = (r, outb, b_strm st')"
    and w: "b_window st' = memcpy (b_window st) (WINSIZE - avail_out (reset_window (b_strm st))) outb 0 (length outb)"
    and to: "totout st' = totout st + int (avail_out (reset_window (b_strm st))) - int (avail_out (b_strm st'))"
    and pt: "if want_point (data_type (b_strm st')) (totout st') (last_out st) span
       then \<exists>a. addpoint M (b_index st) (data_type (b_strm st') AND 7) (totin st') (totout st')
                    (avail_out (b_strm st')) (b_window st') = Some a \<and>
                 b_index st' = Some a \<and> last_out st' = totout st'
       else b_index st' = b_index st \<and> last_out st' = last_out st"
    by blast
  let ?a1 = "avail_out (reset_window (b_strm st))"
  have a1: "?a1 \<le> WINSIZE" using inv by (simp add: build_inv_def reset_window_facts)
  note io = inflate_facts(1,2)[OF infl]
  have a2: "avail_out (b_strm st') \<le> WINSIZE" using io a1 by simp
  have wl: "length (b_window st') = WINSIZE"
    using inv io a1 by (simp add: w build_inv_def length_memcpy)
  have mono: "totout st \<le> totout st'" using to io by simp
  show ?thesis
  proof (cases "want_point (data_type (b_strm st')) (totout st') (last_out st) span")
    case True
    with pt obtain a where add: "addpoint M (b_index st) (data_type (b_strm st') AND 7) (totin st') (totout st')
                    (avail_out (b_strm st')) (b_window st') = Some a"
      and ix: "b_index st' = Some a" and lo: "last_out st' = totout st'" by auto
    have "index_inv (Some a) (totout st')"
      using index_inv_addpoint[OF _ _ _ _ span a2 wl add, of "last_out st"] inv mono True
      by (auto simp: build_inv_def want_point_def)
    then show ?thesis using a2 wl ix lo inv mono by (simp add: build_inv_def)
  next
    case False
    with pt have "b_index st' = b_index st" "last_out st' = last_out st" by auto
    then show ?thesis using a2 wl inv mono by (simp add: build_inv_def)
  qed
qed

lemma build_inv_Break:
  assumes inv: "build_inv st"
    and step: "build_index_step Z M span st = Break r st'"
  shows "build_inv st'"
proof -
  from build_index_step_Break[OF step] obtain outb where
    infl: "inflate Z (reset_window (b_strm st)) Z_BLOCK = (r, outb, b_strm st')"
    and w: "b_window st' = memcpy (b_window st) (WINSIZE - avail_out (reset_window (b_strm st))) outb 0 (length outb)"
    and to: "totout st' = totout st + int (avail_out (reset_window (b_strm st))) - int (avail_out (b_strm st'))"
    and same: "b_index st' = b_index st" "last_out st' = last_out st"
    by blast
  let ?a1 = "avail_out (reset_window (b_strm st))"
  have a1: "?a1 \<le> WINSIZE" using inv by (simp add: build_inv_def reset_window_facts)
  note io = inflate_facts(1,2)[OF infl]
  have a2: "avail_out (b_strm st') \<le> WINSIZE" using io a1 by simp
  have wl: "length (b_window st') = WINSIZE"
    using inv io a1 by (simp add: w build_inv_def length_memcpy)
  have mono: "totout st \<le> totout st'" using to io by simp
  show ?thesis using a2 wl inv mono same by (simp add: build_inv_def)
qed

lemma build_inv_init: "build_inv (build_index_init Z M f s0)"
  by (simp add: build_inv_def build_index_init_def index_inv_def)

lemma build_outer_build_inv:
  assumes run: "build_index_outer Z M span (build_index_init Z M f s0) = Some (Left r st)"
    and span: "0 \<le> span"
  shows "build_inv st"
proof -
  have "\<forall>r' s'. Left r st = Left r' s' \<longrightarrow> r' = Z_STREAM_END \<and> build_inv s'"
  proof (rule build_outer_inv[OF run, where J = build_inv and I = build_inv and Q = build_inv])
    show "build_inv (build_index_init Z M f s0)" by (rule build_inv_init)
    show "\<forall>s bs f'. build_inv s \<longrightarrow> fread (b_in s) CHUNK = (bs, f') \<longrightarrow> \<not> ferr f' \<longrightarrow> bs \<noteq> [] \<longrightarrow>
             build_inv (s\<lparr>b_in := f', b_strm := (b_strm s)\<lparr>next_in := bs\<rparr>\<rparr>)"
      by (simp add: build_inv_def)
    show "\<forall>s r s'. build_inv s \<longrightarrow> next_in (b_strm s) \<noteq> [] \<longrightarrow>
            build_index_step Z M span s = Next r s' \<longrightarrow> build_inv s'"
      using build_inv_Next span by blast
    show "\<forall>s r s'. build_inv s \<longrightarrow> next_in (b_strm s) \<noteq> [] \<longrightarrow>
            build_index_step Z M span s = Break r s' \<longrightarrow> build_inv s'"
      using build_inv_Break by blast
    show "\<forall>s. build_inv s \<longrightarrow> next_in (b_strm s) = [] \<longrightarrow> build_inv s" by simp
  qed
  then show ?thesis by blast
qed

lemma build_index_result:
  assumes "build_index Z M f span = Some (Inr (n, Some a))"
  shows "\<exists>s0 r st a0. z_inflateInit2 Z 47 = (Z_OK, s0) \<and>
           build_index_outer Z M span (build_index_init Z M f s0) = Some (Left r st) \<and>
           b_index st = Some a0 \<and> a = a0\<lparr>size_n := have_n a0\<rparr> \<and> n = have_n a0"
proof -
  obtain ret s0 where init: "z_inflateInit2 Z 47 = (ret, s0)" by (cases "z_inflateInit2 Z 47")
  with assms have ok: "ret = Z_OK" by (auto simp: build_index_def split: if_splits)
  from assms init ok obtain res where
    run: "build_index_outer Z M span (build_index_init Z M f s0) = Some res"
    and fin: "(case res of Failed e st \<Rightarrow> Some (Inr (e, None))
               | Left ret st \<Rightarrow>
                   (case b_index st of None \<Rightarrow> Some (Inl NullDeref)
                    | Some a \<Rightarrow> if alloc_ok M (AllocPoints (have_n a))
                                then Some (Inr (have_n a, Some (a\<lparr>size_n := have_n a\<rparr>)))
                                else Some (Inl NullDeref))) = Some (Inr (n, Some a))"
    by (auto simp: build_index_def bind_eq_Some_conv)
  show ?thesis
  proof (cases res)
    case (Failed e st)
    with fin show ?thesis by simp
  next
    case (Left r st)
    show ?thesis
    proof (cases "b_index st")
      case None
      with fin Left show ?thesis by simp
    next
      case (Some a0)
      with fin Left have ok2: "alloc_ok M (AllocPoints (have_n a0))"
        by (cases "alloc_ok M (AllocPoints (have_n a0))") simp_all
      with fin Left Some have "n = have_n a0" "a = a0\<lparr>size_n := have_n a0\<rparr>" by auto
      with run Left init ok Some show ?thesis by blast
    qed
  qed
qed

lemma built_index_inv:
  assumes "build_index Z M f span = Some (Inr (n, Some a))" and "0 \<le> span"
  shows "n = have_n a \<and> have_n a = int (length (list_p a)) \<and> list_p a \<noteq> [] \<and>
         sorted_wrt out_order (list_p a) \<and>
         (\<forall>p \<in> set (list_p a). 0 \<le> out p \<and> 0 \<le> bits p \<and> bits p \<le> 7 \<and> length (window p) = WINSIZE)"
proof -
  from build_index_result[OF assms(1)] obtain s0 r st a0 where
    run: "build_index_outer Z M span (build_index_init Z M f s0) = Some (Left r st)"
    and ix: "b_index st = Some a0" and a: "a = a0\<lparr>size_n := have_n a0\<rparr>" and n: "n = have_n a0"
    by blast
  from build_outer_build_inv[OF run assms(2)] ix
  have "index_inv (Some a0) (last_out st)" by (simp add: build_inv_def)
  then show ?thesis using a n by (auto simp: index_inv_def list_all_iff)
qed

lemmas build_eval =
  build_index_step_def reset_window_def inflate_def Let_def
  Z_OK_def Z_NEED_DICT_def Z_DATA_ERROR_def Z_MEM_ERROR_def Z_STREAM_END_def want_point_def
  addpoint_def plain_mem_def fread_def readable_def healthy_file_def CHUNK_def SPAN_def WINSIZE_def

lemma run_AB_span1:
  "\<exists>w. build_index (scripted script_AB) plain_mem (healthy_file gz_AB) 1 =
     Some (Inr (1, Some \<lparr>have_n = 1, size_n = 1,
                 list_p = [\<lparr>out = 0, inp = 10, bits = 0, window = w\<rparr>]\<rparr>))"
  apply (simp add: build_index_def scripted_def script_AB_def gz_AB_def Z_OK_def build_index_init_def)
  apply (subst build_index_outer.simps)
  apply (simp add: build_eval)
  apply (subst build_index_inner.simps)
  apply (simp add: build_eval)
  apply (subst build_index_inner.simps)
  apply (simp add: build_eval)
  apply (subst build_index_inner.simps)
  apply (simp add: build_eval)
  apply (subst build_index_inner.simps)
  apply (simp add: build_eval)
  done

lemma run_AB_span0:
  "\<exists>w1 w2. build_index (scripted script_AB) plain_mem (healthy_file gz_AB) 0 =
     Some (Inr (2, Some \<lparr>have_n = 2, size_n = 2,
                 list_p = [\<lparr>out = 0, inp = 10, bits = 0, window = w1\<rparr>,
                           \<lparr>out = 1, inp = 16, bits = 0, window = w2\<rparr>]\<rparr>))"
  apply (simp add: build_index_def scripted_def script_AB_def gz_AB_def Z_OK_def build_index_init_def)
  apply (subst build_index_outer.simps)
  apply (simp add: build_eval)
  apply (subst build_index_inner.simps)
  apply (simp add: build_eval)
  apply (subst build_index_inner.simps)
  apply (simp add: build_eval)
  apply (subst build_index_inner.simps)
  apply (simp add: build_eval)
  apply (subst build_index_inner.simps)
  apply (simp add: build_eval)
  done

lemma run_empty_A:
  "\<exists>w1 w2. build_index (scripted script_empty_A) plain_mem (healthy_file gz_empty_A) SPAN =
     Some (Inr (2, Some \<lparr>have_n = 2, size_n = 2,
                 list_p = [\<lparr>out = 0, inp = 10, bits = 0, window = w1\<rparr>,
                           \<lparr>out = 0, inp = 15, bits = 0, window = w2\<rparr>]\<rparr>))"
  apply (simp add: build_index_def scripted_def script_empty_A_def gz_empty_A_def Z_OK_def build_index_init_def)
  apply (subst build_index_outer.simps)
  apply (simp add: build_eval)
  apply (subst build_index_inner.simps)
  apply (simp add: build_eval)
  apply (subst build_index_inner.simps)
  apply (simp add: build_eval)
  apply (subst build_index_inner.simps)
  apply (simp add: build_eval)
  apply (subst build_index_inner.simps)
  apply (simp add: build_eval)
  done

lemma point_added_same: "b_index st' = b_index st \<Longrightarrow> \<not> point_added st st'"
proof
  assume same: "b_index st' = b_index st" and pa: "point_added st st'"
  then obtain a where a: "b_index st = Some a" "list_p a \<noteq> []" "butlast (list_p a) = list_p a"
    by (auto simp: point_added_def split: option.splits)
  from a(2) have "length (butlast (list_p a)) < length (list_p a)" by simp
  with a(3) show False by simp
qed

text \<open>
  C3, as the code has it. At the end of a block that is not the last one, when the pass
  through the loop body goes on (no error, no end of stream), an access point is appended
  exactly when \<open>totout = 0\<close> or \<open>totout - last > span\<close>, strictly more than \<open>span\<close>;
  \<open>last\<close> then becomes \<open>totout\<close>, and otherwise the index and \<open>last\<close> stay as they were.
\<close>

theorem point_emitted_iff:
  assumes step: "build_index_step Z M span st = Next r st'"
    and eob: "data_type (b_strm st') AND 128 \<noteq> 0"
    and notlast: "data_type (b_strm st') AND 64 = 0"
  shows "(point_added st st' \<longleftrightarrow> totout st' = 0 \<or> totout st' - last_out st > span) \<and>
         (point_added st st' \<longrightarrow> last_out st' = totout st') \<and>
         (\<not> point_added st st' \<longrightarrow> b_index st' = b_index st \<and> last_out st' = last_out st)"
proof -
  from build_index_step_Next[OF step]
  have pt: "if want_point (data_type (b_strm st')) (totout st') (last_out st) span
       then \<exists>a. addpoint M (b_index st) (data_type (b_strm st') AND 7) (totin st') (totout st')
                    (avail_out (b_strm st')) (b_window st') = Some a \<and>
                 b_index st' = Some a \<and> last_out st' = totout st'
       else b_index st' = b_index st \<and> last_out st' = last_out st"
    by blast
  have w: "want_point (data_type (b_strm st')) (totout st') (last_out st) span \<longleftrightarrow>
           totout st' = 0 \<or> totout st' - last_out st > span"
    using eob notlast by (simp add: want_point_def)
  show ?thesis
  proof (cases "want_point (data_type (b_strm st')) (totout st') (last_out st) span")
    case True
    with pt obtain a where add: "addpoint M (b_index st) (data_type (b_strm st') AND 7) (totin st')
        (totout st') (avail_out (b_strm st')) (b_window st') = Some a"
      and ix: "b_index st' = Some a" and lo: "last_out st' = totout st'" by auto
    from addpoint_list[OF add] ix have "point_added st st'"
      by (auto simp: point_added_def)
    with True w lo show ?thesis by simp
  next
    case False
    with pt have same: "b_index st' = b_index st" "last_out st' = last_out st" by auto
    with point_added_same[OF same(1)] False w show ?thesis by simp
  qed
qed

lemma ex_first_pass_step:
  "\<exists>w. build_index_step (scripted script_AB) plain_mem SPAN ex_first_pass =
     Next 0 (ex_first_pass
       \<lparr>b_strm := \<lparr>next_in = drop 10 gz_AB, avail_out = WINSIZE, data_type = 128,
                   zstate = tl script_AB\<rparr>,
        b_window := memcpy (fresh plain_mem WINSIZE) 0 [] 0 0,
        totin := 10, totout := 0,
        b_index := Some \<lparr>have_n = 1, size_n = 8,
                          list_p = [\<lparr>out = 0, inp = 10, bits = 0, window = w\<rparr>]\<rparr>\<rparr>)"
  by (simp add: ex_first_pass_def build_index_init_def scripted_def script_AB_def gz_AB_def build_eval)

theorem point_emitted_iff_witness:
  "is_Next (build_index_step (scripted script_AB) plain_mem SPAN ex_first_pass) \<and>
   data_type (b_strm (ctl_state (build_index_step (scripted script_AB) plain_mem SPAN ex_first_pass))) AND 128 \<noteq> 0 \<and>
   data_type (b_strm (ctl_state (build_index_step (scripted script_AB) plain_mem SPAN ex_first_pass))) AND 64 = 0 \<and>
   totout (ctl_state (build_index_step (scripted script_AB) plain_mem SPAN ex_first_pass)) = 0 \<and>
   point_added ex_first_pass (ctl_state (build_index_step (scripted script_AB) plain_mem SPAN ex_first_pass)) \<and>
   last_out (ctl_state (build_index_step (scripted script_AB) plain_mem SPAN ex_first_pass)) = 0"
proof -
  from ex_first_pass_step obtain st' where
    step: "build_index_step (scripted script_AB) plain_mem SPAN ex_first_pass = Next 0 st'"
    and dt: "data_type (b_strm st') = 128" and tout: "totout st' = 0"
    by auto
  have e: "data_type (b_strm st') AND 128 \<noteq> 0" and n: "data_type (b_strm st') AND 64 = 0"
    by (simp_all add: dt)
  from point_emitted_iff[OF step e n] tout
  have "point_added ex_first_pass st'" "last_out st' = totout st'" by simp_all
  with step e n tout show ?thesis by (simp add: is_Next_def ctl_state_def)
qed

lemma ex_before_span_step:
  "build_index_step (scripted []) plain_mem SPAN ex_before_span =
     Next 0 (ex_before_span
       \<lparr>b_strm := \<lparr>next_in = [0], avail_out = 99, data_type = 128, zstate = []\<rparr>,
        b_window := memcpy (fresh plain_mem WINSIZE) (WINSIZE - 100) [66] 0 1,
        totin := 5006, totout := SPAN\<rparr>)"
  by (simp add: ex_before_span_def scripted_def build_eval)

theorem no_point_at_exactly_span:
  "is_Next (build_index_step (scripted []) plain_mem SPAN ex_before_span) \<and>
   data_type (b_strm (ctl_state (build_index_step (scripted []) plain_mem SPAN ex_before_span))) AND 128 \<noteq> 0 \<and>
   data_type (b_strm (ctl_state (build_index_step (scripted []) plain_mem SPAN ex_before_span))) AND 64 = 0 \<and>
   totout (ctl_state (build_index_step (scripted []) plain_mem SPAN ex_before_span)) - last_out ex_before_span \<ge> SPAN \<and>
   \<not> point_added ex_before_span (ctl_state (build_index_step (scripted []) plain_mem SPAN ex_before_span)) \<and>
   ret_of (build_index (scripted script_AB) plain_mem (healthy_file gz_AB) 1) = Some 1 \<and>
   points_of (build_index (scripted script_AB) plain_mem (healthy_file gz_AB) 1) = [(0, 10, 0)]"
proof -
  have "\<not> point_added ex_before_span (ex_before_span
       \<lparr>b_strm := \<lparr>next_in = [0], avail_out = 99, data_type = 128, zstate = []\<rparr>,
        b_window := memcpy (fresh plain_mem WINSIZE) (WINSIZE - 100) [66] 0 1,
        totin := 5006, totout := SPAN\<rparr>)"
    by (rule point_added_same) simp
  moreover from run_AB_span1 have
    "ret_of (build_index (scripted script_AB) plain_mem (healthy_file gz_AB) 1) = Some 1"
    "points_of (build_index (scripted script_AB) plain_mem (healthy_file gz_AB) 1) = [(0, 10, 0)]"
    by (auto simp: ret_of_def points_of_def)
  ultimately show ?thesis
    by (simp add: ex_before_span_step is_Next_def ctl_state_def) (simp add: ex_before_span_def)
qed

text \<open>Every pass through the loop body that goes on keeps the buffer a ring.\<close>

lemma ring_holds_Next:
  assumes step: "build_index_step Z M span st = Next r st'"
    and ring: "ring_holds w0 hist st"
    and outb: "outb = fst (snd (inflate Z (reset_window (b_strm st)) Z_BLOCK))"
  shows "ring_holds w0 (hist @ outb) st'"
proof -
  from build_index_step_Next[OF step] obtain ob where
    infl: "inflate Z (reset_window (b_strm st)) Z_BLOCK = (r, ob, b_strm st')"
    and w: "b_window st' = memcpy (b_window st) (WINSIZE - avail_out (reset_window (b_strm st))) ob 0 (length ob)"
    and tout': "totout st' = totout st + int (avail_out (reset_window (b_strm st))) - int (avail_out (b_strm st'))"
    by blast
  from infl outb have ob: "ob = outb" by simp
  let ?left = "avail_out (b_strm st')" and ?buf = "b_window st'"
  define n where "n = avail_out (reset_window (b_strm st))"
  from ring have l0: "length w0 = WINSIZE" and lw: "length (b_window st) = WINSIZE"
    and av: "avail_out (b_strm st) \<le> WINSIZE" and th: "totout st = int (length hist)"
    and rg: "rotate (WINSIZE - avail_out (b_strm st)) (b_window st) = drop (length hist) (w0 @ hist)"
    by (simp_all add: ring_holds_def)
  have n0: "0 < n" and nW: "n \<le> WINSIZE"
    using reset_window_facts(1)[OF av] reset_window_facts(2)[of "b_strm st"] by (simp_all add: n_def)
  have rg1: "rotate (WINSIZE - n) (b_window st) = drop (length hist) (w0 @ take (length hist) (hist @ outb))"
  proof (cases "avail_out (b_strm st) = 0")
    case True
    then have "n = WINSIZE" by (simp add: n_def reset_window_def)
    moreover have "rotate WINSIZE (b_window st) = b_window st"
      using lw by (subst rotate_conv_mod) simp
    ultimately show ?thesis using rg True by simp
  next
    case False
    then have "n = avail_out (b_strm st)" by (simp add: n_def reset_window_def)
    then show ?thesis using rg by simp
  qed
  note io = inflate_facts(1,2)[OF infl, unfolded ob, folded n_def]
  have left: "?left \<le> WINSIZE" using io nW by simp
  have leq: "?left = n - length outb" using io by simp
  have wl: "length ?buf = WINSIZE"
    using lw io nW n0 by (simp add: w ob n_def[symmetric] memcpy_def)
  have a: "length hist \<le> length (hist @ outb)" by simp
  have c: "outb = take (length outb) (drop (length hist) (hist @ outb))" by simp
  from ring_advance[OF lw n0 nW io(1) a l0 rg1 c]
  have rot': "rotate (WINSIZE - ?left) ?buf = drop (length (hist @ outb)) (w0 @ hist @ outb)"
    unfolding w ob n_def[symmetric] leq by simp
  have tout2: "totout st' = int (length (hist @ outb))"
    using tout' th io by (simp add: n_def[symmetric])
  show ?thesis
    unfolding ring_holds_def using l0 wl left tout2 rot' by blast
qed

text \<open>
  C4, as the code has it. When a pass through the loop body appends an access point, the
  window stored in it is the circular buffer rotated at the write position: the
  \<open>avail_out\<close> bytes from \<open>buf + WINSIZE - avail_out\<close>, followed by the first
  \<open>WINSIZE - avail_out\<close> bytes of \<open>buf\<close>; it has \<open>WINSIZE\<close> bytes, and with
  \<open>avail_out = WINSIZE\<close> it is the buffer as it stands. This is the chronological order:
  where the buffer was kept as a ring up to this pass (\<open>ring_holds\<close> for the bytes \<open>hist\<close>
  written before it), and \<open>outb\<close> is what \<^verbatim>\<open>inflate\<close> wrote in this pass, the stored window
  is the last \<open>WINSIZE\<close> bytes of the initial buffer content followed by \<open>hist @ outb\<close>,
  oldest first; the point is at \<open>out = length (hist @ outb)\<close>, and the buffer is kept as a
  ring for the next pass.
\<close>

theorem stored_window_is_rotation:
  assumes step: "build_index_step Z M span st = Next r st'"
    and added: "point_added st st'"
    and ring: "ring_holds w0 hist st"
    and outb: "outb = fst (snd (inflate Z (reset_window (b_strm st)) Z_BLOCK))"
  shows "window (last (list_p (the (b_index st')))) =
           take (avail_out (b_strm st')) (drop (WINSIZE - avail_out (b_strm st')) (b_window st')) @
           take (WINSIZE - avail_out (b_strm st')) (b_window st') \<and>
         window (last (list_p (the (b_index st')))) = rotate (WINSIZE - avail_out (b_strm st')) (b_window st') \<and>
         length (window (last (list_p (the (b_index st'))))) = WINSIZE \<and>
         (avail_out (b_strm st') = WINSIZE \<longrightarrow>
            window (last (list_p (the (b_index st')))) = b_window st') \<and>
         window (last (list_p (the (b_index st')))) = drop (length (hist @ outb)) (w0 @ hist @ outb) \<and>
         out (last (list_p (the (b_index st')))) = int (length (hist @ outb)) \<and>
         ring_holds w0 (hist @ outb) st'"
proof -
  from build_index_step_Next[OF step] have
    pt: "if want_point (data_type (b_strm st')) (totout st') (last_out st) span
       then \<exists>a. addpoint M (b_index st) (data_type (b_strm st') AND 7) (totin st') (totout st')
                    (avail_out (b_strm st')) (b_window st') = Some a \<and>
                 b_index st' = Some a \<and> last_out st' = totout st'
       else b_index st' = b_index st \<and> last_out st' = last_out st"
    by blast
  let ?left = "avail_out (b_strm st')" and ?buf = "b_window st'"
  note ring' = ring_holds_Next[OF step ring outb]
  then have wl: "length ?buf = WINSIZE" and left: "?left \<le> WINSIZE"
    and tout2: "totout st' = int (length (hist @ outb))"
    and rot': "rotate (WINSIZE - ?left) ?buf = drop (length (hist @ outb)) (w0 @ hist @ outb)"
    by (simp_all add: ring_holds_def)
  from added point_added_same have "b_index st' \<noteq> b_index st" by blast
  with pt obtain a where add: "addpoint M (b_index st) (data_type (b_strm st') AND 7) (totin st')
        (totout st') ?left ?buf = Some a" and ix: "b_index st' = Some a"
    by (auto split: if_splits)
  from addpoint_Some[OF left wl add]
  have win: "window (last (list_p a)) = drop (WINSIZE - ?left) ?buf @ take (WINSIZE - ?left) ?buf"
    and ou: "out (last (list_p a)) = totout st'"
    by simp_all
  have t: "take ?left (drop (WINSIZE - ?left) ?buf) = drop (WINSIZE - ?left) ?buf"
    using wl left by simp
  have rot: "drop (WINSIZE - ?left) ?buf @ take (WINSIZE - ?left) ?buf = rotate (WINSIZE - ?left) ?buf"
    by (rule drop_take_rotate) (simp add: wl)
  have 1: "window (last (list_p (the (b_index st')))) =
           take ?left (drop (WINSIZE - ?left) ?buf) @ take (WINSIZE - ?left) ?buf"
    using win t ix by simp
  have 2: "window (last (list_p (the (b_index st')))) = rotate (WINSIZE - ?left) ?buf"
    using win rot ix by simp
  have 3: "length (window (last (list_p (the (b_index st'))))) = WINSIZE"
    using 2 wl by simp
  have 4: "?left = WINSIZE \<longrightarrow> window (last (list_p (the (b_index st')))) = ?buf"
    using 2 by simp
  have 5: "window (last (list_p (the (b_index st')))) = drop (length (hist @ outb)) (w0 @ hist @ outb)"
    using 2 rot' by simp
  have 6: "out (last (list_p (the (b_index st')))) = int (length (hist @ outb))"
    using ou ix tout2 by simp
  from 1 2 3 4 5 6 ring' show ?thesis by blast
qed

lemma ring_holds_init:
  "ring_holds (fresh M WINSIZE) [] (build_index_init Z M f s0)"
proof -
  have "rotate WINSIZE (fresh M WINSIZE) = fresh M WINSIZE"
    by (subst rotate_conv_mod) simp
  then show ?thesis by (simp add: ring_holds_def build_index_init_def)
qed

lemma windows_chronological_more:
  "windows_chronological w0 hist ix \<Longrightarrow> windows_chronological w0 (hist @ ys) ix"
  by (auto simp: windows_chronological_def list_all_iff split: option.splits)

lemma windows_chronological_Next:
  assumes step: "build_index_step Z M span st = Next r st'"
    and ring: "ring_holds w0 hist st"
    and old: "windows_chronological w0 hist (b_index st)"
    and outb: "outb = fst (snd (inflate Z (reset_window (b_strm st)) Z_BLOCK))"
  shows "windows_chronological w0 (hist @ outb) (b_index st')"
proof (cases "want_point (data_type (b_strm st')) (totout st') (last_out st) span")
  case False
  with build_index_step_Next[OF step] have "b_index st' = b_index st" by auto
  with windows_chronological_more[OF old] show ?thesis by simp
next
  case True
  let ?left = "avail_out (b_strm st')" and ?buf = "b_window st'"
  from True build_index_step_Next[OF step] obtain a where
    add: "addpoint M (b_index st) (data_type (b_strm st') AND 7) (totin st') (totout st')
            ?left ?buf = Some a" and ix: "b_index st' = Some a"
    by auto
  from ring_holds_Next[OF step ring outb]
  have wl: "length ?buf = WINSIZE" and left: "?left \<le> WINSIZE"
    and tout2: "totout st' = int (length (hist @ outb))"
    and rot': "rotate (WINSIZE - ?left) ?buf = drop (length (hist @ outb)) (w0 @ hist @ outb)"
    by (simp_all add: ring_holds_def)
  have rot: "drop (WINSIZE - ?left) ?buf @ take (WINSIZE - ?left) ?buf = rotate (WINSIZE - ?left) ?buf"
    by (rule drop_take_rotate) (simp add: wl)
  from addpoint_Some[OF left wl add] rot rot' tout2
  have lst: "list_p a = (case b_index st of None \<Rightarrow> [] | Some a0 \<Rightarrow> list_p a0) @
               [\<lparr>out = int (length (hist @ outb)), inp = totin st', bits = data_type (b_strm st') AND 7,
                 window = drop (length (hist @ outb)) (w0 @ hist @ outb)\<rparr>]"
    by simp
  define P where "P = (\<lambda>p::point. 0 \<le> out p \<and> nat (out p) \<le> length (hist @ outb) \<and>
      window p = drop (nat (out p)) (w0 @ take (nat (out p)) (hist @ outb)))"
  define q where "q = \<lparr>out = int (length (hist @ outb)), inp = totin st',
      bits = data_type (b_strm st') AND 7,
      window = drop (length (hist @ outb)) (w0 @ hist @ outb)\<rparr>"
  from windows_chronological_more[OF old, of outb]
  have o: "list_all P (case b_index st of None \<Rightarrow> [] | Some a0 \<Rightarrow> list_p a0)"
    unfolding windows_chronological_def P_def .
  have "P q" unfolding P_def q_def by (simp only: point.select_convs nat_int) simp
  with o have "list_all P ((case b_index st of None \<Rightarrow> [] | Some a0 \<Rightarrow> list_p a0) @ [q])"
    by simp
  then have "list_all P (list_p a)" unfolding lst q_def .
  then show ?thesis unfolding windows_chronological_def ix P_def by simp
qed

text \<open>
  Over a whole run: there is one sequence of bytes, what \<^verbatim>\<open>inflate\<close> wrote, of which every
  window of the index that \<open>build_index\<close> returns holds the last \<open>WINSIZE\<close> bytes before
  its point, oldest first (preceded by the initial content of the buffer when the point
  is less than \<open>WINSIZE\<close> bytes into the stream).
\<close>

lemma built_windows_chronological:
  assumes run: "build_index Z M f span = Some (Inr (n, Some a))"
  shows "\<exists>hist. windows_chronological (fresh M WINSIZE) hist (Some a)"
proof -
  let ?w0 = "fresh M WINSIZE"
  let ?I = "\<lambda>s. \<exists>hist. ring_holds ?w0 hist s \<and> windows_chronological ?w0 hist (b_index s)"
  let ?Q = "\<lambda>s. \<exists>hist. windows_chronological ?w0 hist (b_index s)"
  from build_index_result[OF run] obtain s0 r st a0 where
    outer: "build_index_outer Z M span (build_index_init Z M f s0) = Some (Left r st)"
    and ix: "b_index st = Some a0" and a: "a = a0\<lparr>size_n := have_n a0\<rparr>"
    by blast
  have "\<forall>r' s'. Left r st = Left r' s' \<longrightarrow> r' = Z_STREAM_END \<and> ?Q s'"
  proof (rule build_outer_inv[where I = ?I and J = ?I, OF outer])
    show "?I (build_index_init Z M f s0)"
      using ring_holds_init[of M Z f s0]
      by (intro exI[of _ "[]"]) (simp add: windows_chronological_def build_index_init_def)
    show "\<forall>s bs f'. ?I s \<longrightarrow> fread (b_in s) CHUNK = (bs, f') \<longrightarrow> \<not> ferr f' \<longrightarrow> bs \<noteq> [] \<longrightarrow>
            ?I (s\<lparr>b_in := f', b_strm := (b_strm s)\<lparr>next_in := bs\<rparr>\<rparr>)"
    proof (intro allI impI)
      fix s bs f'
      assume i: "?I s" and "fread (b_in s) CHUNK = (bs, f')"
      from i obtain hist where h: "ring_holds ?w0 hist s"
        "windows_chronological ?w0 hist (b_index s)" by blast
      from h(1) have "ring_holds ?w0 hist (s\<lparr>b_in := f', b_strm := (b_strm s)\<lparr>next_in := bs\<rparr>\<rparr>)"
        by (simp add: ring_holds_def)
      with h(2) show "?I (s\<lparr>b_in := f', b_strm := (b_strm s)\<lparr>next_in := bs\<rparr>\<rparr>)"
        by (intro exI[of _ hist]) simp
    qed
    show "\<forall>s r s'. ?I s \<longrightarrow> next_in (b_strm s) \<noteq> [] \<longrightarrow>
            build_index_step Z M span s = Next r s' \<longrightarrow> ?I s'"
    proof (intro allI impI)
      fix s r s'
      assume i: "?I s" and n: "build_index_step Z M span s = Next r s'"
      from i obtain hist where h: "ring_holds ?w0 hist s"
        "windows_chronological ?w0 hist (b_index s)" by blast
      define outb where "outb = fst (snd (inflate Z (reset_window (b_strm s)) Z_BLOCK))"
      from ring_holds_Next[OF n h(1) outb_def] windows_chronological_Next[OF n h outb_def]
      show "?I s'" by blast
    qed
    show "\<forall>s r s'. ?I s \<longrightarrow> next_in (b_strm s) \<noteq> [] \<longrightarrow>
            build_index_step Z M span s = Break r s' \<longrightarrow> ?Q s'"
    proof (intro allI impI)
      fix s r s'
      assume i: "?I s" and b: "build_index_step Z M span s = Break r s'"
      from build_index_step_Break[OF b] have "b_index s' = b_index s" by blast
      with i show "?Q s'" by auto
    qed
    show "\<forall>s. ?I s \<longrightarrow> next_in (b_strm s) = [] \<longrightarrow> ?I s" by blast
  qed
  then obtain hist where "windows_chronological ?w0 hist (Some a0)" using ix by auto
  then show ?thesis using a by (auto simp: windows_chronological_def)
qed

lemma fresh_plain: "fresh plain_mem n = replicate n 0"
  by (simp add: fresh_def plain_mem_def map_replicate_const)

lemma ex_pass1_eq:
  "\<exists>w. ex_pass1 =
     \<lparr>b_in = (healthy_file gz_AB)\<lparr>fpos := 30\<rparr>,
      b_strm = \<lparr>next_in = drop 10 gz_AB, avail_out = WINSIZE, data_type = 128,
                zstate = tl script_AB\<rparr>,
      b_window = fresh plain_mem WINSIZE,
      totin = 10, totout = 0, last_out = 0,
      b_index = Some \<lparr>have_n = 1, size_n = 8,
                       list_p = [\<lparr>out = 0, inp = 10, bits = 0, window = w\<rparr>]\<rparr>\<rparr>"
  by (simp add: ex_pass1_def ex_fed_def build_index_init_def scripted_def script_AB_def gz_AB_def
      build_eval ctl_state_def memcpy_def)

lemma ex_pass1_step:
  "\<exists>w w2. ex_pass1 =
     \<lparr>b_in = (healthy_file gz_AB)\<lparr>fpos := 30\<rparr>,
      b_strm = \<lparr>next_in = drop 10 gz_AB, avail_out = WINSIZE, data_type = 128,
                zstate = tl script_AB\<rparr>,
      b_window = fresh plain_mem WINSIZE,
      totin = 10, totout = 0, last_out = 0,
      b_index = Some \<lparr>have_n = 1, size_n = 8,
                       list_p = [\<lparr>out = 0, inp = 10, bits = 0, window = w\<rparr>]\<rparr>\<rparr> \<and>
   build_index_step (scripted script_AB) plain_mem 0 ex_pass1 =
     Next 0
      \<lparr>b_in = (healthy_file gz_AB)\<lparr>fpos := 30\<rparr>,
       b_strm = \<lparr>next_in = drop 16 gz_AB, avail_out = 32767, data_type = 128,
                 zstate = tl (tl script_AB)\<rparr>,
       b_window = 65 # replicate 32767 0,
       totin = 16, totout = 1, last_out = 1,
       b_index = Some \<lparr>have_n = 2, size_n = 8,
                        list_p = [\<lparr>out = 0, inp = 10, bits = 0, window = w\<rparr>,
                                  \<lparr>out = 1, inp = 16, bits = 0, window = w2\<rparr>]\<rparr>\<rparr>"
proof -
  from ex_pass1_eq obtain w where e: "ex_pass1 =
     \<lparr>b_in = (healthy_file gz_AB)\<lparr>fpos := 30\<rparr>,
      b_strm = \<lparr>next_in = drop 10 gz_AB, avail_out = WINSIZE, data_type = 128,
                zstate = tl script_AB\<rparr>,
      b_window = fresh plain_mem WINSIZE,
      totin = 10, totout = 0, last_out = 0,
      b_index = Some \<lparr>have_n = 1, size_n = 8,
                       list_p = [\<lparr>out = 0, inp = 10, bits = 0, window = w\<rparr>]\<rparr>\<rparr>" by blast
  have m: "memcpy (fresh \<lparr>alloc_ok = \<lambda>_. True, junk = \<lambda>_. 0\<rparr> 32768) 0 [65] 0 (Suc 0) =
           65 # replicate 32767 0"
    using fresh_plain[of 32768] by (simp add: memcpy_def plain_mem_def)
  have "\<exists>w2. build_index_step (scripted script_AB) plain_mem 0
     \<lparr>b_in = (healthy_file gz_AB)\<lparr>fpos := 30\<rparr>,
      b_strm = \<lparr>next_in = drop 10 gz_AB, avail_out = WINSIZE, data_type = 128,
                zstate = tl script_AB\<rparr>,
      b_window = fresh plain_mem WINSIZE,
      totin = 10, totout = 0, last_out = 0,
      b_index = Some \<lparr>have_n = 1, size_n = 8,
                       list_p = [\<lparr>out = 0, inp = 10, bits = 0, window = w\<rparr>]\<rparr>\<rparr> =
     Next 0
      \<lparr>b_in = (healthy_file gz_AB)\<lparr>fpos := 30\<rparr>,
       b_strm = \<lparr>next_in = drop 16 gz_AB, avail_out = 32767, data_type = 128,
                 zstate = tl (tl script_AB)\<rparr>,
       b_window = 65 # replicate 32767 0,
       totin = 16, totout = 1, last_out = 1,
       b_index = Some \<lparr>have_n = 2, size_n = 8,
                        list_p = [\<lparr>out = 0, inp = 10, bits = 0, window = w\<rparr>,
                                  \<lparr>out = 1, inp = 16, bits = 0, window = w2\<rparr>]\<rparr>\<rparr>"
    by (simp add: scripted_def script_AB_def gz_AB_def build_eval m)
  with e show ?thesis by metis
qed

theorem stored_window_is_rotation_witness:
  "ring_holds (fresh plain_mem WINSIZE) [] ex_pass1 \<and>
   is_Next (build_index_step (scripted script_AB) plain_mem 0 ex_pass1) \<and>
   point_added ex_pass1 (ctl_state (build_index_step (scripted script_AB) plain_mem 0 ex_pass1)) \<and>
   fst (snd (inflate (scripted script_AB) (reset_window (b_strm ex_pass1)) Z_BLOCK)) = [65] \<and>
   avail_out (b_strm (ctl_state (build_index_step (scripted script_AB) plain_mem 0 ex_pass1))) = 32767 \<and>
   b_window (ctl_state (build_index_step (scripted script_AB) plain_mem 0 ex_pass1)) =
     65 # replicate 32767 0 \<and>
   window (last (list_p (the (b_index (ctl_state
       (build_index_step (scripted script_AB) plain_mem 0 ex_pass1)))))) =
     replicate 32767 0 @ [65] \<and>
   out (last (list_p (the (b_index (ctl_state
       (build_index_step (scripted script_AB) plain_mem 0 ex_pass1)))))) = 1"
proof -
  from ex_pass1_step obtain w w2 st' where e: "ex_pass1 =
     \<lparr>b_in = (healthy_file gz_AB)\<lparr>fpos := 30\<rparr>,
      b_strm = \<lparr>next_in = drop 10 gz_AB, avail_out = WINSIZE, data_type = 128,
                zstate = tl script_AB\<rparr>,
      b_window = fresh plain_mem WINSIZE,
      totin = 10, totout = 0, last_out = 0,
      b_index = Some \<lparr>have_n = 1, size_n = 8,
                       list_p = [\<lparr>out = 0, inp = 10, bits = 0, window = w\<rparr>]\<rparr>\<rparr>"
    and step: "build_index_step (scripted script_AB) plain_mem 0 ex_pass1 = Next 0 st'"
    and st': "st' =
      \<lparr>b_in = (healthy_file gz_AB)\<lparr>fpos := 30\<rparr>,
       b_strm = \<lparr>next_in = drop 16 gz_AB, avail_out = 32767, data_type = 128,
                 zstate = tl (tl script_AB)\<rparr>,
       b_window = 65 # replicate 32767 0,
       totin = 16, totout = 1, last_out = 1,
       b_index = Some \<lparr>have_n = 2, size_n = 8,
                        list_p = [\<lparr>out = 0, inp = 10, bits = 0, window = w\<rparr>,
                                  \<lparr>out = 1, inp = 16, bits = 0, window = w2\<rparr>]\<rparr>\<rparr>"
    by blast
  have ao: "avail_out (b_strm st') = 32767" and bw: "b_window st' = 65 # replicate 32767 0"
    by (simp_all add: st')
  have ring: "ring_holds (fresh plain_mem WINSIZE) [] ex_pass1"
    unfolding e by (simp add: ring_holds_def)
  have pa: "point_added ex_pass1 st'"
    unfolding e st' by (simp add: point_added_def)
  have ob: "[65] = fst (snd (inflate (scripted script_AB) (reset_window (b_strm ex_pass1)) Z_BLOCK))"
    unfolding e by (simp add: scripted_def script_AB_def inflate_def reset_window_def Let_def WINSIZE_def)
  from stored_window_is_rotation[OF step pa ring ob]
  have "window (last (list_p (the (b_index st')))) =
          drop (length ([] @ [65::byte])) (fresh plain_mem WINSIZE @ [] @ [65])"
    and "out (last (list_p (the (b_index st')))) = int (length ([] @ [65::byte]))"
    by blast+
  then have "window (last (list_p (the (b_index st')))) = replicate 32767 0 @ [65]"
    and "out (last (list_p (the (b_index st')))) = 1"
    by (simp_all add: fresh_plain WINSIZE_def)
  with step ring pa ob[symmetric] ao bw show ?thesis by (simp add: is_Next_def ctl_state_def)
qed

lemma ex_ring_length: "length ex_ring = WINSIZE"
  by (simp add: ex_ring_def WINSIZE_def)

theorem spec_window_differs:
  "addpoint plain_mem None 0 0 0 24576 ex_ring \<noteq> None \<and>
   length (spec_linearize 24576 ex_ring) = WINSIZE \<and>
   window (last (list_p (the (addpoint plain_mem None 0 0 0 24576 ex_ring)))) ! 8192 = 1 \<and>
   spec_linearize 24576 ex_ring ! 8192 = 0 \<and>
   window (last (list_p (the (addpoint plain_mem None 0 0 0 24576 ex_ring)))) \<noteq>
     spec_linearize 24576 ex_ring"
proof -
  obtain a where a: "addpoint plain_mem None 0 0 0 24576 ex_ring = Some a"
    by (simp add: addpoint_def plain_mem_def Let_def)
  have l: "(24576::nat) \<le> WINSIZE" by (simp add: WINSIZE_def)
  from addpoint_Some[OF l ex_ring_length a]
  have w: "window (last (list_p a)) = drop (WINSIZE - 24576) ex_ring @ take (WINSIZE - 24576) ex_ring"
    by simp
  have w1: "window (last (list_p a)) = replicate 24576 1 @ replicate 8192 0"
    by (simp add: w WINSIZE_def ex_ring_def)
  have s1: "spec_linearize 24576 ex_ring = replicate 8192 1 @ replicate 8192 0 @ replicate 16384 1"
    by (simp add: spec_linearize_def WINSIZE_def ex_ring_def replicate_add[symmetric] min_def)
  have n1: "window (last (list_p a)) ! 8192 = 1" by (simp add: w1 nth_append)
  have n2: "spec_linearize 24576 ex_ring ! 8192 = 0" by (simp add: s1 nth_append)
  have len: "length (spec_linearize 24576 ex_ring) = WINSIZE" by (simp add: s1 WINSIZE_def)
  from n1 n2 have "window (last (list_p a)) \<noteq> spec_linearize 24576 ex_ring" by auto
  with a n1 n2 len show ?thesis by simp
qed

text \<open>
  C5, as the code has it. An index that \<open>build_index\<close> returns for a span that is not
  negative has at least one point, its \<open>have\<close> is the number of its points, the points
  are in increasing order of \<open>out\<close>, strictly so apart from points at \<open>out = 0\<close>, which can
  repeat; every \<open>bits\<close> lies in 0..7 and every window has \<open>WINSIZE = 32768\<close> bytes.
\<close>

theorem built_index_invariants:
  assumes "build_index Z M f span = Some (Inr (n, Some a))" and "0 \<le> span"
  shows "n = have_n a \<and> have_n a = int (length (list_p a)) \<and> 1 \<le> have_n a \<and>
         sorted_wrt out_order (list_p a) \<and> sorted (map out (list_p a)) \<and>
         (\<forall>p \<in> set (list_p a). 0 \<le> out p \<and> 0 \<le> bits p \<and> bits p \<le> 7 \<and>
                                   length (window p) = 32768)"
proof -
  note inv = built_index_inv[OF assms]
  then have ne: "list_p a \<noteq> []" and h: "have_n a = int (length (list_p a))" by simp_all
  from ne have "1 \<le> length (list_p a)" by (cases "list_p a") simp_all
  with h have one: "1 \<le> have_n a" by simp
  have "sorted_wrt (\<lambda>p q. out p \<le> out q) (list_p a)"
    by (rule sorted_wrt_mono_rel[OF _ conjunct1[OF conjunct2[OF conjunct2[OF conjunct2[OF inv]]]]])
       (auto simp: out_order_def)
  then have "sorted (map out (list_p a))" by (simp add: sorted_map)
  with inv one show ?thesis by (simp add: WINSIZE_def)
qed

theorem built_index_invariants_witness:
  "ret_of (build_index (scripted script_AB) plain_mem (healthy_file gz_AB) 0) = Some 2 \<and>
   (0::int) \<le> 0 \<and>
   points_of (build_index (scripted script_AB) plain_mem (healthy_file gz_AB) 0) = [(0, 10, 0), (1, 16, 0)] \<and>
   list_all (\<lambda>p. length (window p) = 32768)
     (case build_index (scripted script_AB) plain_mem (healthy_file gz_AB) 0 of
        Some (Inr (n, Some a)) \<Rightarrow> list_p a | _ \<Rightarrow> [])"
proof -
  from run_AB_span0 obtain w1 w2 where
    run: "build_index (scripted script_AB) plain_mem (healthy_file gz_AB) 0 =
     Some (Inr (2, Some \<lparr>have_n = 2, size_n = 2,
                 list_p = [\<lparr>out = 0, inp = 10, bits = 0, window = w1\<rparr>,
                           \<lparr>out = 1, inp = 16, bits = 0, window = w2\<rparr>]\<rparr>))" by blast
  have sp: "(0::int) \<le> 0" by simp
  from built_index_invariants[OF run sp]
  have "length w1 = 32768" "length w2 = 32768" by simp_all
  with run show ?thesis by (simp add: ret_of_def points_of_def)
qed

theorem two_points_at_zero:
  "ret_of (build_index (scripted script_empty_A) plain_mem (healthy_file gz_empty_A) SPAN) = Some 2 \<and>
   points_of (build_index (scripted script_empty_A) plain_mem (healthy_file gz_empty_A) SPAN) =
     [(0, 10, 0), (0, 15, 0)] \<and>
   \<not> sorted_wrt (<) (map fst (points_of
        (build_index (scripted script_empty_A) plain_mem (healthy_file gz_empty_A) SPAN)))"
proof -
  from run_empty_A obtain w1 w2 where
    run: "build_index (scripted script_empty_A) plain_mem (healthy_file gz_empty_A) SPAN =
     Some (Inr (2, Some \<lparr>have_n = 2, size_n = 2,
                 list_p = [\<lparr>out = 0, inp = 10, bits = 0, window = w1\<rparr>,
                           \<lparr>out = 0, inp = 15, bits = 0, window = w2\<rparr>]\<rparr>))" by blast
  then show ?thesis by (simp add: ret_of_def points_of_def)
qed

text \<open>
  C8, as the code has it. \<open>reader::close\<close> is idempotent: on an open reader it frees the
  session and clears \<open>m_obj\<close>, and a second call changes nothing and is defined.
  \<open>seekgzip_close\<close> itself is defined on a null pointer and on a live session only.
\<close>

theorem reader_close_idempotent:
  assumes "m_obj r = Some p" and "S p = Some zs"
  shows "reader_close S r = Inr (S(p := None), r\<lparr>m_obj := None\<rparr>) \<and>
         reader_close (S(p := None)) (r\<lparr>m_obj := None\<rparr>) = Inr (S(p := None), r\<lparr>m_obj := None\<rparr>) \<and>
         seekgzip_close S None = Inr S"
  using assms by (simp add: reader_close_def seekgzip_close_def)

theorem reader_close_idempotent_witness:
  "\<lparr>m_obj = Some 7\<rparr> = \<lparr>m_obj = Some (7::nat)\<rparr> \<and> [7 \<mapsto> ex_session] 7 = Some ex_session \<and>
   reader_close [7 \<mapsto> ex_session] \<lparr>m_obj = Some 7\<rparr> = Inr (Map.empty, \<lparr>m_obj = None\<rparr>) \<and>
   reader_close Map.empty \<lparr>m_obj = None\<rparr> = Inr (Map.empty, \<lparr>m_obj = None\<rparr>)"
proof -
  have h1: "m_obj \<lparr>m_obj = Some 7\<rparr> = Some 7" by simp
  have h2: "[7 \<mapsto> ex_session] (7::nat) = Some ex_session" by simp
  from reader_close_idempotent[where S = "[7 \<mapsto> ex_session]" and p = 7, OF h1 h2]
  show ?thesis by simp
qed

theorem seekgzip_close_twice_faults:
  "seekgzip_close [7 \<mapsto> ex_session] (Some 7) = Inr Map.empty \<and>
   seekgzip_close Map.empty (Some 7) = Inl UseAfterFree"
  by (simp add: seekgzip_close_def)

lemma seekgzip_build_codes:
  assumes "seekgzip_build Z M G H fs target = Some (Inr (ret, g))"
  shows "ret \<in> {SEEKGZIP_SUCCESS, SEEKGZIP_ERROR, SEEKGZIP_OPENERROR, SEEKGZIP_OUTOFMEMORY}"
proof (cases "fs target")
  case None
  with assms show ?thesis by (simp add: seekgzip_build_def)
next
  case (Some f)
  with assms obtain b where b: "build_index Z M f SPAN = Some b"
    and rest: "(case b of Inl flt \<Rightarrow> Some (Inl flt)
       | Inr (len, built) \<Rightarrow>
           if len < 0 then Some (Inr (build_error_ret SEEKGZIP_SUCCESS len, None))
           else if \<not> alloc_ok M (AllocBytes (length target + 4 + 1))
           then Some (Inr (SEEKGZIP_OUTOFMEMORY, None))
           else (case gzopen_wb G (target @ ''.idx'') of
                   None \<Rightarrow> Some (Inr (SEEKGZIP_OPENERROR, None))
                 | Some gz \<Rightarrow>
                     (case built of
                        None \<Rightarrow> Some (Inl NullDeref)
                      | Some a \<Rightarrow>
                          (case write_index G H gz a of
                             Inl flt \<Rightarrow> Some (Inl flt)
                           | Inr gz' \<Rightarrow> Some (Inr (SEEKGZIP_SUCCESS, Some gz')))))) = Some (Inr (ret, g))"
    by (auto simp: seekgzip_build_def bind_eq_Some_conv)
  show ?thesis
  proof (cases b)
    case (Inl flt)
    with rest show ?thesis by simp
  next
    case (Inr p)
    obtain len built where p: "p = (len, built)" by (cases p)
    with rest Inr show ?thesis
      by (auto simp: build_error_ret_neg split: if_splits option.splits sum.splits)
  qed
qed

lemma write_index_ok:
  "have_n a = int (length (list_p a)) \<Longrightarrow> \<exists>g'. write_index G H gz a = Inr g'"
  by (simp add: write_index_def Let_def)

text \<open>
  C10, as the code has it. When the compressed stream indexes successfully:
  if the name of the index file cannot be allocated, \<open>seekgzip_build\<close> returns
  \<open>SEEKGZIP_OUTOFMEMORY\<close>; if \<^verbatim>\<open>gzopen\<close> fails, it returns \<open>SEEKGZIP_OPENERROR\<close>; otherwise it
  returns \<open>SEEKGZIP_SUCCESS\<close> whatever the calls of \<^verbatim>\<open>gzwrite\<close> return. And no run of
  \<open>seekgzip_build\<close> returns \<open>SEEKGZIP_WRITEERROR\<close>.
\<close>

theorem build_ignores_gzwrite:
  assumes "fs target = Some f"
    and "build_index Z M f SPAN = Some (Inr (len, Some a))"
  shows "(\<not> alloc_ok M (AllocBytes (length target + 4 + 1)) \<longrightarrow>
            seekgzip_build Z M G H fs target = Some (Inr (SEEKGZIP_OUTOFMEMORY, None))) \<and>
         (alloc_ok M (AllocBytes (length target + 4 + 1)) \<longrightarrow>
          gzopen_wb G (target @ ''.idx'') = None \<longrightarrow>
            seekgzip_build Z M G H fs target = Some (Inr (SEEKGZIP_OPENERROR, None))) \<and>
         (\<forall>gz. alloc_ok M (AllocBytes (length target + 4 + 1)) \<longrightarrow>
               gzopen_wb G (target @ ''.idx'') = Some gz \<longrightarrow>
            (\<exists>g'. seekgzip_build Z M G H fs target = Some (Inr (SEEKGZIP_SUCCESS, Some g')))) \<and>
         (\<forall>Z' M' G' H' fs' t' ret g.
            seekgzip_build (Z'::'z zlib) M' (G'::'g gzlib) H' fs' t' = Some (Inr (ret, g)) \<longrightarrow>
            ret \<noteq> SEEKGZIP_WRITEERROR)"
proof -
  have span: "0 \<le> SPAN" by (simp add: SPAN_def)
  note inv = built_index_inv[OF assms(2) span]
  then have len: "\<not> len < 0" by (cases "list_p a") auto
  from inv have wf: "have_n a = int (length (list_p a))" by simp
  have 0: "seekgzip_build Z M G H fs target = Some (Inr (SEEKGZIP_OUTOFMEMORY, None))"
    if "\<not> alloc_ok M (AllocBytes (length target + 4 + 1))"
    using assms len that by (simp add: seekgzip_build_def)
  have 1: "seekgzip_build Z M G H fs target = Some (Inr (SEEKGZIP_OPENERROR, None))"
    if "alloc_ok M (AllocBytes (length target + 4 + 1))" "gzopen_wb G (target @ ''.idx'') = None"
    using assms len that by (simp add: seekgzip_build_def)
  have 2: "\<exists>g'. seekgzip_build Z M G H fs target = Some (Inr (SEEKGZIP_SUCCESS, Some g'))"
    if "alloc_ok M (AllocBytes (length target + 4 + 1))" "gzopen_wb G (target @ ''.idx'') = Some gz"
    for gz
  proof -
    from write_index_ok[OF wf, of G H gz] obtain g' where w: "write_index G H gz a = Inr g'"
      by blast
    have "seekgzip_build Z M G H fs target = Some (Inr (SEEKGZIP_SUCCESS, Some g'))"
      using assms len w that by (simp add: seekgzip_build_def)
    then show ?thesis by blast
  qed
  have 3: "ret \<noteq> SEEKGZIP_WRITEERROR"
    if "seekgzip_build (Z'::'z zlib) M' (G'::'g gzlib) H' fs' t' = Some (Inr (ret, g))"
    for Z' M' G' H' fs' t' ret g
    using seekgzip_build_codes[OF that]
    by (auto simp: SEEKGZIP_WRITEERROR_def SEEKGZIP_SUCCESS_def SEEKGZIP_ERROR_def
        SEEKGZIP_OPENERROR_def SEEKGZIP_OUTOFMEMORY_def)
  from 0 1 2 3 show ?thesis by blast
qed

lemma run_AB_SPAN:
  "\<exists>w. build_index (scripted script_AB) plain_mem (healthy_file gz_AB) SPAN =
     Some (Inr (1, Some \<lparr>have_n = 1, size_n = 1,
                 list_p = [\<lparr>out = 0, inp = 10, bits = 0, window = w\<rparr>]\<rparr>))"
  apply (simp add: build_index_def scripted_def script_AB_def gz_AB_def Z_OK_def build_index_init_def)
  apply (subst build_index_outer.simps)
  apply (simp add: build_eval)
  apply (subst build_index_inner.simps)
  apply (simp add: build_eval)
  apply (subst build_index_inner.simps)
  apply (simp add: build_eval)
  apply (subst build_index_inner.simps)
  apply (simp add: build_eval)
  apply (subst build_index_inner.simps)
  apply (simp add: build_eval)
  done

lemma run_AB_name_mem:
  "\<exists>w. build_index (scripted script_AB) name_mem (healthy_file gz_AB) SPAN =
     Some (Inr (1, Some \<lparr>have_n = 1, size_n = 1,
                 list_p = [\<lparr>out = 0, inp = 10, bits = 0, window = w\<rparr>]\<rparr>))"
  apply (simp add: build_index_def scripted_def script_AB_def gz_AB_def Z_OK_def build_index_init_def)
  apply (subst build_index_outer.simps)
  apply (simp add: build_eval name_mem_def)
  apply (subst build_index_inner.simps)
  apply (simp add: build_eval name_mem_def)
  apply (subst build_index_inner.simps)
  apply (simp add: build_eval name_mem_def)
  apply (subst build_index_inner.simps)
  apply (simp add: build_eval name_mem_def)
  apply (subst build_index_inner.simps)
  apply (simp add: build_eval name_mem_def)
  done

theorem build_ignores_gzwrite_witness:
  "ret_of (build_index (scripted script_AB) plain_mem (healthy_file gz_AB) SPAN) = Some 1 \<and>
   ret_of (build_index (scripted script_AB) name_mem (healthy_file gz_AB) SPAN) = Some 1 \<and>
   alloc_ok plain_mem (AllocBytes (length ''a.gz'' + 4 + 1)) \<and>
   \<not> alloc_ok name_mem (AllocBytes (length ''a.gz'' + 4 + 1)) \<and>
   gzopen_wb failing_gz (''a.gz'' @ ''.idx'') = Some [] \<and>
   gzopen_wb closed_gz (''a.gz'' @ ''.idx'') = None \<and>
   fst (gzwrite failing_gz [] [1, 2, 3]) = 0 \<and>
   seekgzip_build (scripted script_AB) plain_mem failing_gz lp64 [''a.gz'' \<mapsto> healthy_file gz_AB] ''a.gz''
     = Some (Inr (SEEKGZIP_SUCCESS, Some [])) \<and>
   seekgzip_build (scripted script_AB) plain_mem closed_gz lp64 [''a.gz'' \<mapsto> healthy_file gz_AB] ''a.gz''
     = Some (Inr (SEEKGZIP_OPENERROR, None)) \<and>
   seekgzip_build (scripted script_AB) name_mem failing_gz lp64 [''a.gz'' \<mapsto> healthy_file gz_AB] ''a.gz''
     = Some (Inr (SEEKGZIP_OUTOFMEMORY, None))"
proof -
  from run_AB_SPAN obtain a where
    run: "build_index (scripted script_AB) plain_mem (healthy_file gz_AB) SPAN = Some (Inr (1, Some a))"
    by blast
  from run_AB_name_mem obtain a' where
    run': "build_index (scripted script_AB) name_mem (healthy_file gz_AB) SPAN = Some (Inr (1, Some a'))"
    by blast
  have f: "[''a.gz'' \<mapsto> healthy_file gz_AB] ''a.gz'' = Some (healthy_file gz_AB)" by simp
  have m: "alloc_ok plain_mem (AllocBytes (length ''a.gz'' + 4 + 1))" by (simp add: plain_mem_def)
  have m': "\<not> alloc_ok name_mem (AllocBytes (length ''a.gz'' + 4 + 1))" by (simp add: name_mem_def)
  have g: "gzopen_wb failing_gz (''a.gz'' @ ''.idx'') = Some []" by (simp add: failing_gz_def)
  have c: "gzopen_wb closed_gz (''a.gz'' @ ''.idx'') = None" by (simp add: closed_gz_def)
  note ok = build_ignores_gzwrite[where H = lp64 and fs = "[''a.gz'' \<mapsto> healthy_file gz_AB]"
      and target = "''a.gz''" and G = failing_gz, OF f run]
  note op = build_ignores_gzwrite[where H = lp64 and fs = "[''a.gz'' \<mapsto> healthy_file gz_AB]"
      and target = "''a.gz''" and G = closed_gz, OF f run]
  note nm = build_ignores_gzwrite[where H = lp64 and fs = "[''a.gz'' \<mapsto> healthy_file gz_AB]"
      and target = "''a.gz''" and G = failing_gz, OF f run']
  from ok m g obtain g' where b: "seekgzip_build (scripted script_AB) plain_mem failing_gz lp64
      [''a.gz'' \<mapsto> healthy_file gz_AB] ''a.gz'' = Some (Inr (SEEKGZIP_SUCCESS, Some g'))" by blast
  from op m c have b1: "seekgzip_build (scripted script_AB) plain_mem closed_gz lp64
      [''a.gz'' \<mapsto> healthy_file gz_AB] ''a.gz'' = Some (Inr (SEEKGZIP_OPENERROR, None))" by blast
  from nm m' have b2: "seekgzip_build (scripted script_AB) name_mem failing_gz lp64
      [''a.gz'' \<mapsto> healthy_file gz_AB] ''a.gz'' = Some (Inr (SEEKGZIP_OUTOFMEMORY, None))" by blast
  have st: "\<And>gz bs. gzput failing_gz gz bs = gz" by (simp add: gzput_def failing_gz_def)
  have wp: "\<And>gz p. write_point failing_gz lp64 gz p = gz" by (simp add: write_point_def st)
  have fl: "\<And>gz ps. foldl (write_point failing_gz lp64) gz ps = gz"
    subgoal for gz ps by (induction ps arbitrary: gz) (simp_all add: wp)
    done
  have wi: "\<And>a. write_index failing_gz lp64 [] a = Inr [] \<or> write_index failing_gz lp64 [] a = Inl OutOfBounds"
    by (simp add: write_index_def Let_def st fl)
  from b run f m g have "g' = []"
    using wi[of a] by (auto simp: seekgzip_build_def split: sum.splits)
  with b b1 b2 run run' m m' g c show ?thesis by (simp add: ret_of_def failing_gz_def)
qed

theorem build_open_failure_reported:
  "ret_of (build_index (scripted script_AB) plain_mem (healthy_file gz_AB) SPAN) = Some 1 \<and>
   seekgzip_build (scripted script_AB) plain_mem closed_gz lp64 [''a.gz'' \<mapsto> healthy_file gz_AB] ''a.gz''
     = Some (Inr (SEEKGZIP_OPENERROR, None)) \<and>
   SEEKGZIP_OPENERROR \<noteq> SEEKGZIP_SUCCESS \<and>
   ret_of (build_index (scripted script_AB) name_mem (healthy_file gz_AB) SPAN) = Some 1 \<and>
   seekgzip_build (scripted script_AB) name_mem failing_gz lp64 [''a.gz'' \<mapsto> healthy_file gz_AB] ''a.gz''
     = Some (Inr (SEEKGZIP_OUTOFMEMORY, None)) \<and>
   SEEKGZIP_OUTOFMEMORY \<noteq> SEEKGZIP_SUCCESS"
proof -
  from run_AB_SPAN obtain a where
    run: "build_index (scripted script_AB) plain_mem (healthy_file gz_AB) SPAN = Some (Inr (1, Some a))"
    by blast
  from run_AB_name_mem obtain a' where
    run': "build_index (scripted script_AB) name_mem (healthy_file gz_AB) SPAN = Some (Inr (1, Some a'))"
    by blast
  have 1: "seekgzip_build (scripted script_AB) plain_mem closed_gz lp64
             [''a.gz'' \<mapsto> healthy_file gz_AB] ''a.gz'' = Some (Inr (SEEKGZIP_OPENERROR, None))"
    using run by (simp add: seekgzip_build_def plain_mem_def closed_gz_def)
  have 2: "seekgzip_build (scripted script_AB) name_mem failing_gz lp64
             [''a.gz'' \<mapsto> healthy_file gz_AB] ''a.gz'' = Some (Inr (SEEKGZIP_OUTOFMEMORY, None))"
    using run' by (simp add: seekgzip_build_def name_mem_def)
  from run run' 1 2 show ?thesis
    by (simp add: ret_of_def SEEKGZIP_OPENERROR_def SEEKGZIP_SUCCESS_def SEEKGZIP_OUTOFMEMORY_def)
qed











lemma fseeko_ok:
  "seekable f \<Longrightarrow> 0 \<le> off \<Longrightarrow> fseeko f off = (0, f\<lparr>fpos := nat off\<rparr>)"
  by (simp add: fseeko_def)

lemma readable_fpos [simp]: "readable (f\<lparr>fpos := x\<rparr>) = readable f"
  by (simp add: readable_def split: option.splits)

lemma readable_le: "readable f \<le> length (content f)"
  by (simp add: readable_def split: option.splits)

lemma getc_ok:
  assumes "fpos f < readable f"
  shows "getc f = (uint (content f ! fpos f), f\<lparr>fpos := fpos f + 1\<rparr>)"
proof -
  from assms readable_le[of f] have lt: "fpos f < length (content f)" by simp
  have m: "min (Suc 0) (readable f - fpos f) = Suc 0" using assms by simp
  have t: "take (Suc 0) (drop (fpos f) (content f)) = [content f ! fpos f]"
    using lt by (simp add: take_Suc hd_drop_conv_nth)
  have "fread f 1 = ([content f ! fpos f], f\<lparr>fpos := fpos f + 1\<rparr>)"
    using lt by (simp add: fread_def m t)
  then show ?thesis by (simp add: getc_def)
qed

text \<open>
  C6. Once \<open>findpoint\<close> has selected the point \<open>here\<close> (and \<^verbatim>\<open>inflateInit2\<close> succeeded, the
  stream can seek and, when \<open>bits \<noteq> 0\<close>, the byte at \<open>in - 1\<close> can be read), \<open>extract\<close>
  enters its loop in this state: the stream was positioned to \<open>in - 1\<close> when
  \<open>bits \<noteq> 0\<close> and to \<open>in\<close> otherwise; when \<open>bits \<noteq> 0\<close> one byte was read, which leaves the
  position at \<open>in\<close>, and the inflater was primed with \<open>bits\<close> and that byte shifted right
  by \<open>8 - bits\<close>; the point's window was set as the dictionary, with length \<open>WINSIZE\<close>;
  and the inflater has been given no input yet (\<open>next_in\<close> is empty).
\<close>

theorem extract_restarts_at_point:
  assumes len: "0 \<le> len"
    and here: "findpoint idx off = Inr (Some here)"
    and init: "z_inflateInit2 Z (- 15) = (Z_OK, s0)"
    and seek: "seekable f"
    and pos: "0 \<le> inp here" "bits here \<noteq> 0 \<longrightarrow> 1 \<le> inp here \<and> nat (inp here) - 1 < readable f"
    and bts: "0 \<le> bits here" "bits here \<le> 7"
  shows "fseeko f (inp here - (if bits here \<noteq> 0 then 1 else 0)) =
           (0, f\<lparr>fpos := nat (inp here) - (if bits here \<noteq> 0 then 1 else 0)\<rparr>) \<and>
         (bits here \<noteq> 0 \<longrightarrow>
            getc (f\<lparr>fpos := nat (inp here) - 1\<rparr>) =
              (uint (content f ! (nat (inp here) - 1)), f\<lparr>fpos := nat (inp here)\<rparr>)) \<and>
         extract_start Z f idx off buf len =
           Enter \<lparr>e_in = f\<lparr>fpos := nat (inp here)\<rparr>,
                  e_strm = \<lparr>next_in = [], avail_out = 0, data_type = 0,
                            zstate = z_inflateSetDictionary Z
                              (if bits here \<noteq> 0
                               then z_inflatePrime Z s0 (bits here)
                                      (drop_bit (nat (8 - bits here))
                                         (uint (content f ! (nat (inp here) - 1))))
                               else s0)
                              (window here) WINSIZE\<rparr>,
                  e_offset = off - out here, e_skip = True, e_buf = buf\<rparr>"
proof (cases "bits here = 0")
  case True
  have s: "fseeko f (inp here) = (0, f\<lparr>fpos := nat (inp here)\<rparr>)"
    using seek pos(1) by (rule fseeko_ok)
  show ?thesis using True len here init s by (simp add: extract_start_def Z_OK_def)
next
  case False
  with pos have p1: "1 \<le> inp here" and rd: "nat (inp here) - 1 < readable f" by simp_all
  have n1: "nat (inp here - 1) = nat (inp here) - 1" using p1 by simp
  have s: "fseeko f (inp here - 1) = (0, f\<lparr>fpos := nat (inp here) - 1\<rparr>)"
    using fseeko_ok[OF seek, of "inp here - 1"] p1 n1 by simp
  let ?f1 = "f\<lparr>fpos := nat (inp here) - 1\<rparr>"
  have "fpos ?f1 < readable ?f1" using rd by simp
  from getc_ok[OF this] p1
  have g: "getc ?f1 = (uint (content f ! (nat (inp here) - 1)), f\<lparr>fpos := nat (inp here)\<rparr>)"
    by simp
  have "0 \<le> uint (content f ! (nat (inp here) - 1))" by simp
  then have nz: "uint (content f ! (nat (inp here) - 1)) \<noteq> - 1" by linarith
  have sh: "\<not> (8 - bits here < 0 \<or> 32 \<le> 8 - bits here)" using bts by simp
  show ?thesis using False len here init s g nz sh
    by (simp add: extract_start_def Z_OK_def)
qed

theorem extract_restarts_at_point_witness:
  "findpoint ex_bit_index 7 = Inr (Some ex_bit_point) \<and>
   z_inflateInit2 recording (- 15) = (Z_OK, [Init (- 15)]) \<and>
   seekable (healthy_file [10, 20, 181, 40]) \<and>
   nat (inp ex_bit_point) - 1 < readable (healthy_file [10, 20, 181, 40]) \<and>
   extract_start recording (healthy_file [10, 20, 181, 40]) ex_bit_index 7 [] 0 =
     Enter \<lparr>e_in = (healthy_file [10, 20, 181, 40])\<lparr>fpos := 3\<rparr>,
            e_strm = \<lparr>next_in = [], avail_out = 0, data_type = 0,
                      zstate = [Init (- 15), Prime 3 5, SetDictionary (replicate 32768 7) 32768]\<rparr>,
            e_offset = 7, e_skip = True, e_buf = []\<rparr>"
proof -
  have here: "findpoint ex_bit_index 7 = Inr (Some ex_bit_point)"
    by (simp add: findpoint_def ex_bit_index_def findpoint_loop.simps ex_bit_point_def)
  have init: "z_inflateInit2 recording (- 15) = (Z_OK, [Init (- 15)])" by (simp add: recording_def)
  have seek: "seekable (healthy_file [10, 20, 181, 40])" by (simp add: healthy_file_def)
  have rd: "nat (inp ex_bit_point) - 1 < readable (healthy_file [10, 20, 181, 40])"
    by (simp add: ex_bit_point_def readable_def healthy_file_def)
  have pos: "0 \<le> inp ex_bit_point"
    "bits ex_bit_point \<noteq> 0 \<longrightarrow> 1 \<le> inp ex_bit_point \<and>
       nat (inp ex_bit_point) - 1 < readable (healthy_file [10, 20, 181, 40])"
    using rd by (simp_all add: ex_bit_point_def)
  have bts: "0 \<le> bits ex_bit_point" "bits ex_bit_point \<le> 7" by (simp_all add: ex_bit_point_def)
  have len: "(0::int) \<le> 0" by simp
  have d: "drop_bit 5 (181::int) = 5" by (simp add: drop_bit_eq_div)
  from extract_restarts_at_point[OF len here init seek pos bts, of "[]"] here init seek rd
  show ?thesis
    by (simp add: ex_bit_point_def recording_def healthy_file_def WINSIZE_def d)
qed









lemma raw_okD:
  assumes "raw_ok Z cont D R" and "R s pin pout"
  shows "pin < length cont" and "pout \<le> length D"
    and "\<And>k n. 0 < k \<Longrightarrow> pin + k \<le> length cont \<Longrightarrow>
           r_in (z_inflate Z s Z_NO_FLUSH (take k (drop pin cont)) n) \<le> k \<and>
           take n (r_out (z_inflate Z s Z_NO_FLUSH (take k (drop pin cont)) n)) =
             take (length (take n (r_out (z_inflate Z s Z_NO_FLUSH (take k (drop pin cont)) n))))
               (drop pout D) \<and>
           (r_ret (z_inflate Z s Z_NO_FLUSH (take k (drop pin cont)) n) = Z_OK \<or>
            r_ret (z_inflate Z s Z_NO_FLUSH (take k (drop pin cont)) n) = Z_BUF_ERROR \<or>
            r_ret (z_inflate Z s Z_NO_FLUSH (take k (drop pin cont)) n) = Z_STREAM_END) \<and>
           (r_ret (z_inflate Z s Z_NO_FLUSH (take k (drop pin cont)) n) = Z_STREAM_END \<longrightarrow>
              pout + length (take n (r_out (z_inflate Z s Z_NO_FLUSH (take k (drop pin cont)) n))) = length D) \<and>
           (r_ret (z_inflate Z s Z_NO_FLUSH (take k (drop pin cont)) n) \<noteq> Z_STREAM_END \<longrightarrow>
              R (r_state (z_inflate Z s Z_NO_FLUSH (take k (drop pin cont)) n))
                (pin + r_in (z_inflate Z s Z_NO_FLUSH (take k (drop pin cont)) n))
                (pout + length (take n (r_out (z_inflate Z s Z_NO_FLUSH (take k (drop pin cont)) n)))) \<and>
              (r_in (z_inflate Z s Z_NO_FLUSH (take k (drop pin cont)) n) = k \<or>
               length (take n (r_out (z_inflate Z s Z_NO_FLUSH (take k (drop pin cont)) n))) = n))"
proof -
  from assms have a: "pin < length cont \<and> pout \<le> length D \<and>
        (\<forall>k n. 0 < k \<longrightarrow> pin + k \<le> length cont \<longrightarrow>
           (let r = z_inflate Z s Z_NO_FLUSH (take k (drop pin cont)) n;
                m = length (take n (r_out r))
            in r_in r \<le> k \<and> take n (r_out r) = take m (drop pout D) \<and>
               (r_ret r = Z_OK \<or> r_ret r = Z_BUF_ERROR \<or> r_ret r = Z_STREAM_END) \<and>
               (r_ret r = Z_STREAM_END \<longrightarrow> pout + m = length D) \<and>
               (r_ret r \<noteq> Z_STREAM_END \<longrightarrow>
                  R (r_state r) (pin + r_in r) (pout + m) \<and> (r_in r = k \<or> m = n))))"
    unfolding raw_ok_def by blast
  then show "pin < length cont" and "pout \<le> length D" by simp_all
  fix k n :: nat assume "0 < k" "pin + k \<le> length cont"
  with a show "r_in (z_inflate Z s Z_NO_FLUSH (take k (drop pin cont)) n) \<le> k \<and>
           take n (r_out (z_inflate Z s Z_NO_FLUSH (take k (drop pin cont)) n)) =
             take (length (take n (r_out (z_inflate Z s Z_NO_FLUSH (take k (drop pin cont)) n))))
               (drop pout D) \<and>
           (r_ret (z_inflate Z s Z_NO_FLUSH (take k (drop pin cont)) n) = Z_OK \<or>
            r_ret (z_inflate Z s Z_NO_FLUSH (take k (drop pin cont)) n) = Z_BUF_ERROR \<or>
            r_ret (z_inflate Z s Z_NO_FLUSH (take k (drop pin cont)) n) = Z_STREAM_END) \<and>
           (r_ret (z_inflate Z s Z_NO_FLUSH (take k (drop pin cont)) n) = Z_STREAM_END \<longrightarrow>
              pout + length (take n (r_out (z_inflate Z s Z_NO_FLUSH (take k (drop pin cont)) n))) = length D) \<and>
           (r_ret (z_inflate Z s Z_NO_FLUSH (take k (drop pin cont)) n) \<noteq> Z_STREAM_END \<longrightarrow>
              R (r_state (z_inflate Z s Z_NO_FLUSH (take k (drop pin cont)) n))
                (pin + r_in (z_inflate Z s Z_NO_FLUSH (take k (drop pin cont)) n))
                (pout + length (take n (r_out (z_inflate Z s Z_NO_FLUSH (take k (drop pin cont)) n)))) \<and>
              (r_in (z_inflate Z s Z_NO_FLUSH (take k (drop pin cont)) n) = k \<or>
               length (take n (r_out (z_inflate Z s Z_NO_FLUSH (take k (drop pin cont)) n))) = n))"
    unfolding Let_def by blast
qed

lemma CHUNK_pos [simp]: "0 < CHUNK"
  by (simp add: CHUNK_def)

text \<open>The refill keeps the invariant and leaves input in the buffer.\<close>

lemma refill_inv:
  assumes ok: "raw_ok Z cont D R" and inv: "e_inv cont R st pout"
  shows "\<exists>st1. extract_refill st = Inr st1 \<and> e_inv cont R st1 pout \<and> e_pin st1 = e_pin st \<and>
           next_in (e_strm st1) \<noteq> [] \<and> avail_out (e_strm st1) = avail_out (e_strm st) \<and>
           e_skip st1 = e_skip st \<and> e_offset st1 = e_offset st \<and> e_buf st1 = e_buf st"
proof (cases "next_in (e_strm st) = []")
  case False
  with inv show ?thesis by (simp add: extract_refill_def)
next
  case True
  let ?f = "e_in st"
  from inv have h: "healthy ?f" and c: "content ?f = cont" and R: "R (zstate (e_strm st)) (e_pin st) pout"
    by (simp_all add: e_inv_def)
  from True have pin: "e_pin st = fpos ?f" by (simp add: e_pin_def)
  from raw_okD(1)[OF ok R] pin have lt: "fpos ?f < length cont" by simp
  have rd: "readable ?f = length cont" using h c by (simp add: readable_def healthy_def)
  let ?bs = "take (min CHUNK (length cont - fpos ?f)) (drop (fpos ?f) cont)"
  have len: "length ?bs = min CHUNK (length cont - fpos ?f)" by simp
  have pos: "0 < length ?bs" using lt by simp
  have fr: "fread ?f CHUNK = (?bs, ?f\<lparr>fpos := fpos ?f + length ?bs\<rparr>)"
    using h by (simp add: fread_def rd c healthy_def)
  let ?st1 = "st\<lparr>e_in := ?f\<lparr>fpos := fpos ?f + length ?bs\<rparr>, e_strm := (e_strm st)\<lparr>next_in := ?bs\<rparr>\<rparr>"
  have ne: "?bs \<noteq> []" using pos by auto
  have "extract_refill st = Inr ?st1"
    using True h ne lt by (simp add: extract_refill_def fr healthy_def)
  moreover have p1: "e_pin ?st1 = e_pin st" using True by (simp add: e_pin_def)
  moreover have "e_inv cont R ?st1 pout"
    unfolding e_inv_def p1 using h c R lt pin by (simp add: healthy_def)
  ultimately show ?thesis using ne by (intro exI[of _ ?st1]) simp
qed

text \<open>One pass through the body of the inner loop of \<open>extract\<close>, under the contract.\<close>

lemma extract_step_ok:
  assumes ok: "raw_ok Z cont D R" and inv: "e_inv cont R st pout"
    and cap: "\<not> e_skip st \<longrightarrow> avail_out (e_strm st) \<le> nat len \<and> nat len \<le> length (e_buf st)"
  shows "\<exists>r m st2. m \<le> avail_out (e_strm st) \<and> pout + m \<le> length D \<and>
      avail_out (e_strm st2) = avail_out (e_strm st) - m \<and>
      e_skip st2 = e_skip st \<and> e_offset st2 = e_offset st \<and>
      e_buf st2 = (if e_skip st then e_buf st
                   else take (nat len - avail_out (e_strm st)) (e_buf st) @ take m (drop pout D) @
                        drop (nat len - avail_out (e_strm st) + m) (e_buf st)) \<and>
      ((extract_step Z len st = Break Z_STREAM_END st2 \<and> pout + m = length D) \<or>
       (extract_step Z len st = Next r st2 \<and> r \<noteq> Z_STREAM_END \<and> e_inv cont R st2 (pout + m) \<and>
        (m = avail_out (e_strm st) \<or> e_pin st < e_pin st2)))"
proof -
  from refill_inv[OF ok inv] obtain st1 where
    rf: "extract_refill st = Inr st1" and inv1: "e_inv cont R st1 pout"
    and ne: "next_in (e_strm st1) \<noteq> []" and pin1: "e_pin st1 = e_pin st"
    and same: "avail_out (e_strm st1) = avail_out (e_strm st)" "e_skip st1 = e_skip st"
      "e_offset st1 = e_offset st" "e_buf st1 = e_buf st"
    by blast
  let ?k = "length (next_in (e_strm st1))" and ?n = "avail_out (e_strm st1)"
  let ?pin = "e_pin st1"
  from inv1 have R: "R (zstate (e_strm st1)) ?pin pout"
    and nin: "next_in (e_strm st1) = take ?k (drop ?pin cont)"
    and le: "?k \<le> fpos (e_in st1)" "fpos (e_in st1) \<le> length cont"
    and h: "healthy (e_in st1)" "content (e_in st1) = cont"
    by (simp_all add: e_inv_def)
  have k0: "0 < ?k" using ne by simp
  have pk: "?pin + ?k \<le> length cont" using le by (simp add: e_pin_def)
  define r where "r = z_inflate Z (zstate (e_strm st1)) Z_NO_FLUSH (take ?k (drop ?pin cont)) ?n"
  define outb where "outb = take ?n (r_out r)"
  define m where "m = length outb"
  from raw_okD(3)[OF ok R k0 pk, of ?n, folded r_def, folded outb_def, folded m_def]
  have c1: "r_in r \<le> ?k" and c2: "outb = take m (drop pout D)"
    and c3: "r_ret r = Z_OK \<or> r_ret r = Z_BUF_ERROR \<or> r_ret r = Z_STREAM_END"
    and c4: "r_ret r = Z_STREAM_END \<longrightarrow> pout + m = length D"
    and c5: "r_ret r \<noteq> Z_STREAM_END \<longrightarrow> R (r_state r) (?pin + r_in r) (pout + m) \<and> (r_in r = ?k \<or> m = ?n)"
    by blast+
  have r_eq: "z_inflate Z (zstate (e_strm st1)) Z_NO_FLUSH (next_in (e_strm st1)) ?n = r"
    unfolding r_def using nin by simp
  let ?strm2 = "(e_strm st1)\<lparr>next_in := drop (r_in r) (next_in (e_strm st1)),
                  avail_out := ?n - m, data_type := r_data_type r, zstate := r_state r\<rparr>"
  have infl: "inflate Z (e_strm st1) Z_NO_FLUSH = (r_ret r, outb, ?strm2)"
    by (simp add: inflate_def Let_def r_eq m_def outb_def)
  let ?st2 = "st1\<lparr>e_strm := ?strm2,
                 e_buf := (if e_skip st1 then e_buf st1
                           else memcpy (e_buf st1) (nat len - ?n) outb 0 (length outb))\<rparr>"
  have mn: "m \<le> ?n" by (simp add: m_def outb_def)
  have mD: "pout + m \<le> length D"
  proof -
    from c2 have "length (take m (drop pout D)) = m" by (simp add: m_def)
    then have "m \<le> length D - pout" by simp
    with raw_okD(2)[OF ok R] show ?thesis by simp
  qed
  have buf: "e_buf ?st2 = (if e_skip st then e_buf st
                   else take (nat len - avail_out (e_strm st)) (e_buf st) @ take m (drop pout D) @
                        drop (nat len - avail_out (e_strm st) + m) (e_buf st))"
  proof (cases "e_skip st")
    case True
    then show ?thesis using same by simp
  next
    case False
    have 1: "memcpy (e_buf st1) (nat len - ?n) outb 0 (length outb) =
        take (nat len - ?n) (e_buf st1) @ outb @ drop (nat len - ?n + m) (e_buf st1)"
      by (simp add: memcpy_def m_def)
    have 2: "outb @ drop (nat len - ?n + m) (e_buf st1) =
        take m (drop pout D) @ drop (nat len - ?n + m) (e_buf st1)"
      using c2 by simp
    show ?thesis using False same by (simp add: 1[unfolded same] 2[unfolded same])
  qed
  have ret_ne: "r_ret r \<noteq> Z_NEED_DICT" "r_ret r \<noteq> Z_MEM_ERROR" "r_ret r \<noteq> Z_DATA_ERROR"
    using c3 by (auto simp: Z_OK_def Z_BUF_ERROR_def Z_STREAM_END_def Z_NEED_DICT_def
        Z_MEM_ERROR_def Z_DATA_ERROR_def)
  have step: "extract_step Z len st =
      (if r_ret r = Z_STREAM_END then Break (r_ret r) ?st2 else Next (r_ret r) ?st2)"
    using ret_ne by (simp add: extract_step_def rf infl Let_def)
  have pin2: "e_pin ?st2 = ?pin + r_in r"
    using c1 le by (simp add: e_pin_def)
  show ?thesis
  proof (cases "r_ret r = Z_STREAM_END")
    case True
    with step c4 have "extract_step Z len st = Break Z_STREAM_END ?st2 \<and> pout + m = length D"
      by simp
    with mn mD buf same show ?thesis
      by (intro exI[of _ "r_ret r"] exI[of _ m] exI[of _ ?st2]) simp
  next
    case False
    with c5 have R2: "R (r_state r) (?pin + r_in r) (pout + m)" and prog: "r_in r = ?k \<or> m = ?n"
      by simp_all
    have nin2: "drop (r_in r) (next_in (e_strm st1)) =
        take (?k - r_in r) (drop (?pin + r_in r) cont)"
      by (subst nin) (simp add: drop_take add.commute)
    have a1: "healthy (e_in ?st2)" "content (e_in ?st2) = cont" using h by simp_all
    have l2: "length (next_in (e_strm ?st2)) = ?k - r_in r" by simp
    have a2: "length (next_in (e_strm ?st2)) \<le> fpos (e_in ?st2)" using le by simp
    have a3: "fpos (e_in ?st2) \<le> length cont" using le by simp
    have a4: "next_in (e_strm ?st2) = take (length (next_in (e_strm ?st2))) (drop (e_pin ?st2) cont)"
      unfolding l2 pin2 using nin2 by simp
    have a5: "R (zstate (e_strm ?st2)) (e_pin ?st2) (pout + m)"
      unfolding pin2 using R2 by simp
    have inv2: "e_inv cont R ?st2 (pout + m)"
      unfolding e_inv_def using a1 a2 a3 a4 a5 by blast
    have "m = avail_out (e_strm st) \<or> e_pin st < e_pin ?st2"
      using prog k0 pin2 pin1 same by auto
    with step False inv2 have "extract_step Z len st = Next (r_ret r) ?st2 \<and> r_ret r \<noteq> Z_STREAM_END \<and>
        e_inv cont R ?st2 (pout + m) \<and> (m = avail_out (e_strm st) \<or> e_pin st < e_pin ?st2)"
      by simp
    with mn mD buf same show ?thesis
      by (intro exI[of _ "r_ret r"] exI[of _ m] exI[of _ ?st2]) simp
  qed
qed

lemma buf_compose:
  assumes "pos + m \<le> length buf" and "length xs = m"
  shows "take (pos + m) (take pos buf @ xs @ drop (pos + m) buf) @ ys @
           drop (pos + m + k) (take pos buf @ xs @ drop (pos + m) buf) =
         take pos buf @ (xs @ ys) @ drop (pos + m + k) buf"
proof -
  have lp: "length (take pos buf) = pos" using assms(1) by simp
  have 1: "take (pos + m) (take pos buf @ xs @ drop (pos + m) buf) = take pos buf @ xs"
    using lp assms(2) by simp
  have 2: "drop (pos + m + k) (take pos buf @ xs @ drop (pos + m) buf) = drop (pos + m + k) buf"
    using lp assms(2) by (simp add: add.commute)
  show ?thesis by (simp only: 1 2 append_assoc)
qed

lemma take_plain_add:
  "take m (drop p D) @ take k (drop (p + m) D) = take (m + k) (drop p D)"
proof -
  have "take (m + k) (drop p D) = take m (drop p D) @ take k (drop m (drop p D))"
    by (rule take_add)
  moreover have "drop m (drop p D) = drop (p + m) D" by (simp add: add.commute)
  ultimately show ?thesis by simp
qed

text \<open>
  The inner loop of \<open>extract\<close> under the contract: it returns, having delivered the next
  \<open>min avail_out (length D - pout)\<close> bytes of \<open>D\<close>; it ends with \<open>Z_STREAM_END\<close> only when
  \<open>D\<close> is exhausted, and otherwise with the output room used up.
\<close>

lemma extract_inner_total:
  assumes ok: "raw_ok Z cont D R"
  shows "e_inv cont R st pout \<Longrightarrow>
     (\<not> e_skip st \<longrightarrow> avail_out (e_strm st) \<le> nat len \<and> nat len \<le> length (e_buf st)) \<Longrightarrow>
     \<exists>r st'. extract_inner Z len st = Some (Left r st') \<and>
        avail_out (e_strm st') = avail_out (e_strm st) - min (avail_out (e_strm st)) (length D - pout) \<and>
        e_skip st' = e_skip st \<and> e_offset st' = e_offset st \<and>
        e_buf st' = (if e_skip st then e_buf st
                     else take (nat len - avail_out (e_strm st)) (e_buf st) @
                          take (min (avail_out (e_strm st)) (length D - pout)) (drop pout D) @
                          drop (nat len - avail_out (e_strm st) +
                                min (avail_out (e_strm st)) (length D - pout)) (e_buf st)) \<and>
        (r = Z_STREAM_END \<longrightarrow> length D - pout \<le> avail_out (e_strm st)) \<and>
        (r \<noteq> Z_STREAM_END \<longrightarrow> avail_out (e_strm st) \<le> length D - pout \<and>
                               e_inv cont R st' (pout + avail_out (e_strm st)))"
proof (induction "length cont - e_pin st" arbitrary: st pout rule: less_induct)
  case less
  note inv = less.prems(1) and cap = less.prems(2)
  let ?n = "avail_out (e_strm st)"
  let ?pos = "nat len - ?n"
  from extract_step_ok[OF ok inv cap] obtain r m st2 where
    mn: "m \<le> ?n" and mD: "pout + m \<le> length D"
    and av2: "avail_out (e_strm st2) = ?n - m"
    and sk2: "e_skip st2 = e_skip st" and of2: "e_offset st2 = e_offset st"
    and buf2: "e_buf st2 = (if e_skip st then e_buf st
                   else take ?pos (e_buf st) @ take m (drop pout D) @ drop (?pos + m) (e_buf st))"
    and alt: "(extract_step Z len st = Break Z_STREAM_END st2 \<and> pout + m = length D) \<or>
       (extract_step Z len st = Next r st2 \<and> r \<noteq> Z_STREAM_END \<and> e_inv cont R st2 (pout + m) \<and>
        (m = ?n \<or> e_pin st < e_pin st2))"
    by blast
  from alt show ?case
  proof
    assume brk: "extract_step Z len st = Break Z_STREAM_END st2 \<and> pout + m = length D"
    then have run: "extract_inner Z len st = Some (Left Z_STREAM_END st2)"
      by (subst extract_inner.simps) simp
    from brk mn have k: "min ?n (length D - pout) = m" by auto
    from brk mn have le: "length D - pout \<le> ?n" by auto
    show ?thesis
      using le by (intro exI[of _ Z_STREAM_END] exI[of _ st2]) (simp add: run k av2 sk2 of2 buf2)
  next
    assume nxt: "extract_step Z len st = Next r st2 \<and> r \<noteq> Z_STREAM_END \<and>
        e_inv cont R st2 (pout + m) \<and> (m = ?n \<or> e_pin st < e_pin st2)"
    then have step: "extract_step Z len st = Next r st2" and rne: "r \<noteq> Z_STREAM_END"
      and inv2: "e_inv cont R st2 (pout + m)" and prog: "m = ?n \<or> e_pin st < e_pin st2"
      by simp_all
    show ?thesis
    proof (cases "avail_out (e_strm st2) = 0")
      case True
      with av2 mn have meq: "m = ?n" by simp
      from step True have run: "extract_inner Z len st = Some (Left r st2)"
        by (subst extract_inner.simps) simp
      from meq mD have k: "min ?n (length D - pout) = ?n" by simp
      from meq mD have le: "?n \<le> length D - pout" by simp
      show ?thesis
        using rne inv2 le
        by (intro exI[of _ r] exI[of _ st2]) (simp add: run k av2 sk2 of2 buf2 meq)
    next
      case False
      with av2 have mlt: "m < ?n" by simp
      with prog have pin: "e_pin st < e_pin st2" by simp
      from inv2 have "R (zstate (e_strm st2)) (e_pin st2) (pout + m)" by (simp add: e_inv_def)
      from raw_okD(1)[OF ok this] have "e_pin st2 < length cont" .
      with pin have dec: "length cont - e_pin st2 < length cont - e_pin st" by simp
      have cap2: "\<not> e_skip st2 \<longrightarrow> avail_out (e_strm st2) \<le> nat len \<and> nat len \<le> length (e_buf st2)"
      proof
        assume "\<not> e_skip st2"
        with sk2 cap have c: "?n \<le> nat len" "nat len \<le> length (e_buf st)" and ns: "\<not> e_skip st"
          by simp_all
        have "length (take m (drop pout D)) = m" using mD by simp
        moreover have "?pos + m \<le> length (e_buf st)" using c mn by simp
        ultimately have "length (e_buf st2) = length (e_buf st)" using ns by (simp add: buf2)
        with c av2 show "avail_out (e_strm st2) \<le> nat len \<and> nat len \<le> length (e_buf st2)" by simp
      qed
      from less.hyps[OF dec inv2 cap2] obtain r' st' where
        run2: "extract_inner Z len st2 = Some (Left r' st')"
        and av': "avail_out (e_strm st') = avail_out (e_strm st2) -
                    min (avail_out (e_strm st2)) (length D - (pout + m))"
        and sk': "e_skip st' = e_skip st2" and of': "e_offset st' = e_offset st2"
        and buf': "e_buf st' = (if e_skip st2 then e_buf st2
                     else take (nat len - avail_out (e_strm st2)) (e_buf st2) @
                          take (min (avail_out (e_strm st2)) (length D - (pout + m))) (drop (pout + m) D) @
                          drop (nat len - avail_out (e_strm st2) +
                                min (avail_out (e_strm st2)) (length D - (pout + m))) (e_buf st2))"
        and end': "r' = Z_STREAM_END \<longrightarrow> length D - (pout + m) \<le> avail_out (e_strm st2)"
        and go': "r' \<noteq> Z_STREAM_END \<longrightarrow> avail_out (e_strm st2) \<le> length D - (pout + m) \<and>
                               e_inv cont R st' (pout + m + avail_out (e_strm st2))"
        by blast
      from step False have run: "extract_inner Z len st = Some (Left r' st')"
        by (subst extract_inner.simps) (simp add: run2)
      define k2 where "k2 = min (?n - m) (length D - (pout + m))"
      have k: "min ?n (length D - pout) = m + k2"
        using mn mD unfolding k2_def by linarith
      have av: "avail_out (e_strm st') = ?n - min ?n (length D - pout)"
        unfolding k using av' av2 k2_def by simp
      have bf: "e_buf st' = (if e_skip st then e_buf st
                     else take ?pos (e_buf st) @ take (min ?n (length D - pout)) (drop pout D) @
                          drop (?pos + min ?n (length D - pout)) (e_buf st))"
      proof (cases "e_skip st")
        case True
        with buf' buf2 sk2 show ?thesis by simp
      next
        case ns: False
        with cap have c: "?n \<le> nat len" "nat len \<le> length (e_buf st)" by simp_all
        have p2: "nat len - (?n - m) = ?pos + m" using c mn by simp
        have lm: "length (take m (drop pout D)) = m" using mD by simp
        have pm: "?pos + m \<le> length (e_buf st)" using c mn by simp
        from buf' ns sk2 have "e_buf st' =
            take (?pos + m) (e_buf st2) @ take k2 (drop (pout + m) D) @ drop (?pos + m + k2) (e_buf st2)"
          by (simp add: av2 p2 k2_def)
        also have "\<dots> = take ?pos (e_buf st) @ (take m (drop pout D) @ take k2 (drop (pout + m) D)) @
            drop (?pos + m + k2) (e_buf st)"
          using ns by (simp only: buf2 if_False buf_compose[OF pm lm])
        also have "\<dots> = take ?pos (e_buf st) @ take (m + k2) (drop pout D) @ drop (?pos + (m + k2)) (e_buf st)"
          by (simp only: take_plain_add add.assoc)
        finally show ?thesis using ns by (simp add: k)
      qed
      have e1: "r' = Z_STREAM_END \<longrightarrow> length D - pout \<le> ?n"
        using end' av2 mD mn by auto
      have e2: "r' \<noteq> Z_STREAM_END \<longrightarrow> ?n \<le> length D - pout \<and> e_inv cont R st' (pout + ?n)"
      proof
        assume "r' \<noteq> Z_STREAM_END"
        with go' have a: "avail_out (e_strm st2) \<le> length D - (pout + m)"
          and b: "e_inv cont R st' (pout + m + avail_out (e_strm st2))" by simp_all
        have eq: "pout + m + avail_out (e_strm st2) = pout + ?n" using av2 mn by simp
        have "?n \<le> length D - pout" using a av2 mn mD by linarith
        with b eq show "?n \<le> length D - pout \<and> e_inv cont R st' (pout + ?n)" by simp
      qed
      show ?thesis
        using run av sk' sk2 of' of2 bf e1 e2
        by (intro exI[of _ r'] exI[of _ st']) simp
    qed
  qed
qed

lemma e_inv_aim [simp]: "e_inv cont R (extract_aim len st) pout = e_inv cont R st pout"
  by (simp add: extract_aim_def e_inv_def e_pin_def Let_def)

lemma extract_aim_facts:
  "e_in (extract_aim len st) = e_in st" "e_buf (extract_aim len st) = e_buf st"
  by (simp_all add: extract_aim_def Let_def)

lemma extract_aim_arrive:
  "e_skip st \<Longrightarrow> e_offset st = 0 \<Longrightarrow>
   \<not> e_skip (extract_aim len st) \<and> avail_out (e_strm (extract_aim len st)) = nat len \<and>
   e_offset (extract_aim len st) = 0"
  by (simp add: extract_aim_def Let_def)

lemma extract_aim_far:
  "int WINSIZE < e_offset st \<Longrightarrow>
   e_skip (extract_aim len st) = e_skip st \<and> avail_out (e_strm (extract_aim len st)) = WINSIZE \<and>
   e_offset (extract_aim len st) = e_offset st - int WINSIZE"
  by (simp add: extract_aim_def Let_def)

lemma extract_aim_near:
  "0 < e_offset st \<Longrightarrow> e_offset st \<le> int WINSIZE \<Longrightarrow>
   e_skip (extract_aim len st) = e_skip st \<and>
   avail_out (e_strm (extract_aim len st)) = nat (e_offset st) \<and>
   e_offset (extract_aim len st) = 0"
  by (simp add: extract_aim_def Let_def)

lemma extract_outer_unfold:
  assumes "extract_inner Z len (extract_aim len st) = Some (Left r st')"
  shows "extract_outer Z len st =
           (if r = Z_STREAM_END then Some (Left r st')
            else if e_skip st' then extract_outer Z len st' else Some (Left r st'))"
  by (subst extract_outer.simps) (simp add: assms)

text \<open>
  The outer loop of \<open>extract\<close> under the contract, entered while skipping: it returns,
  either still skipping, and then \<open>D\<close> ends at or before the offset aimed at, or with the
  bytes of \<open>D\<close> from that offset in the caller's buffer.
\<close>

lemma extract_outer_total:
  assumes ok: "raw_ok Z cont D R"
  shows "e_inv cont R st pout \<Longrightarrow> e_skip st \<Longrightarrow> 0 \<le> e_offset st \<Longrightarrow> 0 \<le> len \<Longrightarrow>
     nat len \<le> length (e_buf st) \<Longrightarrow>
     \<exists>r st'. extract_outer Z len st = Some (Left r st') \<and>
       (if e_skip st' then drop (pout + nat (e_offset st)) D = [] \<and> e_buf st' = e_buf st
        else avail_out (e_strm st') =
               nat len - length (take (nat len) (drop (pout + nat (e_offset st)) D)) \<and>
             e_buf st' = take (nat len) (drop (pout + nat (e_offset st)) D) @
                         drop (length (take (nat len) (drop (pout + nat (e_offset st)) D))) (e_buf st))"
proof (induction "nat (e_offset st)" arbitrary: st pout rule: less_induct)
  case less
  note inv = less.prems(1) and skip = less.prems(2) and off = less.prems(3)
    and len = less.prems(4) and cap = less.prems(5)
  let ?st1 = "extract_aim len st"
  have inv1: "e_inv cont R ?st1 pout" using inv by simp
  consider (arrive) "e_offset st = 0" | (far) "int WINSIZE < e_offset st"
    | (near) "0 < e_offset st" "e_offset st \<le> int WINSIZE"
    using off by linarith
  then show ?case
  proof cases
    case arrive
    note a = extract_aim_arrive[OF skip arrive, of len]
    have cap1: "\<not> e_skip ?st1 \<longrightarrow> avail_out (e_strm ?st1) \<le> nat len \<and> nat len \<le> length (e_buf ?st1)"
      using a cap by (simp add: extract_aim_facts)
    from extract_inner_total[OF ok inv1 cap1] a obtain r st' where
      run: "extract_inner Z len ?st1 = Some (Left r st')"
      and av: "avail_out (e_strm st') = nat len - min (nat len) (length D - pout)"
      and sk: "\<not> e_skip st'"
      and bf: "e_buf st' = take (min (nat len) (length D - pout)) (drop pout D) @
                 drop (min (nat len) (length D - pout)) (e_buf st)"
      by (auto simp: extract_aim_facts)
    have out: "extract_outer Z len st = Some (Left r st')"
      using extract_outer_unfold[OF run] sk by simp
    have t: "take (min (nat len) (length D - pout)) (drop pout D) = take (nat len) (drop pout D)"
      by (simp add: min_def)
    have l: "length (take (nat len) (drop pout D)) = min (nat len) (length D - pout)"
      by (simp add: min.commute)
    show ?thesis
      using sk by (intro exI[of _ r] exI[of _ st']) (simp add: out arrive av bf t min.commute)
  next
    case far
    note a = extract_aim_far[OF far, of len]
    have cap1: "\<not> e_skip ?st1 \<longrightarrow> avail_out (e_strm ?st1) \<le> nat len \<and> nat len \<le> length (e_buf ?st1)"
      using a skip by simp
    from extract_inner_total[OF ok inv1 cap1] a skip obtain r st' where
      run: "extract_inner Z len ?st1 = Some (Left r st')"
      and sk: "e_skip st'" and of': "e_offset st' = e_offset st - int WINSIZE"
      and bf: "e_buf st' = e_buf st"
      and e1: "r = Z_STREAM_END \<longrightarrow> length D - pout \<le> WINSIZE"
      and e2: "r \<noteq> Z_STREAM_END \<longrightarrow> WINSIZE \<le> length D - pout \<and> e_inv cont R st' (pout + WINSIZE)"
      by (auto simp: extract_aim_facts)
    show ?thesis
    proof (cases "r = Z_STREAM_END")
      case True
      with extract_outer_unfold[OF run] have out: "extract_outer Z len st = Some (Left r st')" by simp
      from True e1 far have "drop (pout + nat (e_offset st)) D = []" by simp
      with sk bf out show ?thesis by (intro exI[of _ r] exI[of _ st']) simp
    next
      case False
      with extract_outer_unfold[OF run] sk
      have out: "extract_outer Z len st = extract_outer Z len st'" by simp
      from False e2 have inv': "e_inv cont R st' (pout + WINSIZE)" by simp
      have dec: "nat (e_offset st') < nat (e_offset st)" using of' far by simp
      have off': "0 \<le> e_offset st'" using of' far by simp
      have cap': "nat len \<le> length (e_buf st')" using cap bf by simp
      have pos: "pout + WINSIZE + nat (e_offset st') = pout + nat (e_offset st)"
        using of' far by simp
      from less.hyps[OF dec inv' sk off' len cap'] show ?thesis
        unfolding out pos bf .
    qed
  next
    case near
    note a = extract_aim_near[OF near, of len]
    have cap1: "\<not> e_skip ?st1 \<longrightarrow> avail_out (e_strm ?st1) \<le> nat len \<and> nat len \<le> length (e_buf ?st1)"
      using a skip by simp
    from extract_inner_total[OF ok inv1 cap1] a skip obtain r st' where
      run: "extract_inner Z len ?st1 = Some (Left r st')"
      and sk: "e_skip st'" and of': "e_offset st' = 0"
      and bf: "e_buf st' = e_buf st"
      and e1: "r = Z_STREAM_END \<longrightarrow> length D - pout \<le> nat (e_offset st)"
      and e2: "r \<noteq> Z_STREAM_END \<longrightarrow> nat (e_offset st) \<le> length D - pout \<and>
                 e_inv cont R st' (pout + nat (e_offset st))"
      by (auto simp: extract_aim_facts)
    show ?thesis
    proof (cases "r = Z_STREAM_END")
      case True
      with extract_outer_unfold[OF run] have out: "extract_outer Z len st = Some (Left r st')" by simp
      from True e1 have "drop (pout + nat (e_offset st)) D = []" by simp
      with sk bf out show ?thesis by (intro exI[of _ r] exI[of _ st']) simp
    next
      case False
      with extract_outer_unfold[OF run] sk
      have out: "extract_outer Z len st = extract_outer Z len st'" by simp
      from False e2 have inv': "e_inv cont R st' (pout + nat (e_offset st))" by simp
      have dec: "nat (e_offset st') < nat (e_offset st)" using of' near by simp
      have off': "0 \<le> e_offset st'" using of' by simp
      have cap': "nat len \<le> length (e_buf st')" using cap bf by simp
      have pos: "pout + nat (e_offset st) + nat (e_offset st') = pout + nat (e_offset st)"
        using of' by simp
      from less.hyps[OF dec inv' sk off' len cap'] show ?thesis
        unfolding out pos bf .
    qed
  qed
qed

text \<open>The state in which \<open>extract\<close> enters its loop at a valid point of a healthy file.\<close>

lemma extract_start_valid:
  assumes len: "0 \<le> len"
    and here: "findpoint idx off = Inr (Some here)"
    and init: "fst (z_inflateInit2 Z (- 15)) = Z_OK"
    and h: "healthy f"
    and v: "valid_point Z (content f) R here"
  shows "extract_start Z f idx off buf len =
           Enter \<lparr>e_in = f\<lparr>fpos := nat (inp here)\<rparr>,
                  e_strm = \<lparr>next_in = [], avail_out = 0, data_type = 0,
                            zstate = resume_state Z (content f) here\<rparr>,
                  e_offset = off - out here, e_skip = True, e_buf = buf\<rparr>"
proof -
  obtain s0 where i0: "z_inflateInit2 Z (- 15) = (Z_OK, s0)"
    using init by (cases "z_inflateInit2 Z (- 15)") simp
  from h have seek: "seekable f" and rd: "readable f = length (content f)"
    by (simp_all add: healthy_def readable_def)
  from v have p0: "0 \<le> inp here" and b: "0 \<le> bits here" "bits here \<le> 7"
    and pb: "bits here \<noteq> 0 \<longrightarrow> 1 \<le> inp here \<and> nat (inp here) - 1 < length (content f)"
    by (simp_all add: valid_point_def)
  show ?thesis
  proof (cases "bits here = 0")
    case True
    have s: "fseeko f (inp here) = (0, f\<lparr>fpos := nat (inp here)\<rparr>)"
      using seek p0 by (rule fseeko_ok)
    show ?thesis using True len here i0 s
      by (simp add: extract_start_def resume_state_def Z_OK_def)
  next
    case False
    with pb have p1: "1 \<le> inp here" and lt: "nat (inp here) - 1 < length (content f)" by simp_all
    have n1: "nat (inp here - 1) = nat (inp here) - 1" using p1 by simp
    have s: "fseeko f (inp here - 1) = (0, f\<lparr>fpos := nat (inp here) - 1\<rparr>)"
      using fseeko_ok[OF seek, of "inp here - 1"] p1 n1 by simp
    let ?f1 = "f\<lparr>fpos := nat (inp here) - 1\<rparr>"
    have "fpos ?f1 < readable ?f1" using lt rd by simp
    from getc_ok[OF this] p1
    have g: "getc ?f1 = (uint (content f ! (nat (inp here) - 1)), f\<lparr>fpos := nat (inp here)\<rparr>)"
      by simp
    have "0 \<le> uint (content f ! (nat (inp here) - 1))" by simp
    then have nz: "uint (content f ! (nat (inp here) - 1)) \<noteq> - 1" by linarith
    have sh: "\<not> (8 - bits here < 0 \<or> 32 \<le> 8 - bits here)" using b by simp
    show ?thesis using False len here i0 s g nz sh
      by (simp add: extract_start_def resume_state_def Z_OK_def)
  qed
qed

lemma findpoint_Some_weak:
  assumes wf: "have_n idx = int (length (list_p idx))"
    and srt: "sorted (map out (list_p idx))"
    and ne: "list_p idx \<noteq> []" and first: "out (hd (list_p idx)) \<le> off"
  shows "\<exists>here. findpoint idx off = Inr (Some here) \<and> here \<in> set (list_p idx) \<and> out here \<le> off"
proof -
  from findpoint_facts[OF wf srt, of off] obtain r where
    r: "r \<le> length (list_p idx)" "findpoint_loop (list_p idx) off 0 (have_n idx) = Some r"
    and below: "\<forall>i<r. out (list_p idx ! i) \<le> off"
    and above: "\<forall>i. r \<le> i \<and> i < length (list_p idx) \<longrightarrow> off < out (list_p idx ! i)"
    by blast
  have r0: "r \<noteq> 0"
  proof
    assume "r = 0"
    with above ne have "off < out (list_p idx ! 0)" by simp
    with first ne show False by (simp add: hd_conv_nth)
  qed
  then have lt: "r - 1 < length (list_p idx)" using r(1) by simp
  have "findpoint idx off = Inr (Some (list_p idx ! (r - 1)))"
    using r(2) r0 by (simp add: findpoint_def)
  moreover have "out (list_p idx ! (r - 1)) \<le> off" using below r0 by simp
  ultimately show ?thesis using lt by auto
qed

text \<open>\<open>extract\<close> on a healthy file with an index of valid points, under the contract.\<close>

lemma extract_correct:
  assumes ok: "raw_ok Z cont D R"
    and init: "fst (z_inflateInit2 Z (- 15)) = Z_OK"
    and h: "healthy f" and c: "content f = cont"
    and wf: "have_n idx = int (length (list_p idx))"
    and srt: "sorted (map out (list_p idx))"
    and ne: "list_p idx \<noteq> []" and first: "out (hd (list_p idx)) \<le> off"
    and valid: "\<forall>p \<in> set (list_p idx). valid_point Z cont R p"
    and len: "0 \<le> len" and cap: "nat len \<le> length buf"
  shows "\<exists>f'. extract' Z f idx off buf len =
           Some (Inr (int (length (take (nat len) (drop (nat off) D))),
                      take (nat len) (drop (nat off) D) @
                        drop (length (take (nat len) (drop (nat off) D))) buf, f'))"
proof -
  let ?got = "take (nat len) (drop (nat off) D)"
  from findpoint_Some_weak[OF wf srt ne first] obtain here where
    fp: "findpoint idx off = Inr (Some here)" and mem: "here \<in> set (list_p idx)"
    and le: "out here \<le> off" by blast
  from valid mem have v: "valid_point Z cont R here" by blast
  then have R0: "R (resume_state Z cont here) (nat (inp here)) (nat (out here))"
    and o0: "0 \<le> out here" by (simp_all add: valid_point_def)
  define st0 where "st0 = \<lparr>e_in = f\<lparr>fpos := nat (inp here)\<rparr>,
               e_strm = \<lparr>next_in = [], avail_out = 0, data_type = 0,
                         zstate = resume_state Z cont here\<rparr>,
               e_offset = off - out here, e_skip = True, e_buf = buf\<rparr>"
  have f0: "e_offset st0 = off - out here" "e_buf st0 = buf" and sk0: "e_skip st0"
    by (simp_all add: st0_def)
  have start: "extract_start Z f idx off buf len = Enter st0"
    using extract_start_valid[OF len fp init h, of R buf] v c by (simp add: st0_def)
  from raw_okD(1)[OF ok R0] have "nat (inp here) < length cont" .
  then have inv0: "e_inv cont R st0 (nat (out here))"
    using h c R0 by (simp add: e_inv_def e_pin_def healthy_def st0_def)
  have off0: "0 \<le> e_offset st0" using le by (simp add: f0)
  have cap0: "nat len \<le> length (e_buf st0)" using cap by (simp add: f0)
  have pos: "nat (out here) + nat (off - out here) = nat off" using le o0 by simp
  from extract_outer_total[OF ok inv0 sk0 off0 len cap0] obtain r st' where
    run: "extract_outer Z len st0 = Some (Left r st')"
    and post0: "if e_skip st' then drop (nat (out here) + nat (e_offset st0)) D = [] \<and> e_buf st' = e_buf st0
        else avail_out (e_strm st') =
               nat len - length (take (nat len) (drop (nat (out here) + nat (e_offset st0)) D)) \<and>
             e_buf st' = take (nat len) (drop (nat (out here) + nat (e_offset st0)) D) @
                         drop (length (take (nat len) (drop (nat (out here) + nat (e_offset st0)) D))) (e_buf st0)"
    by blast
  from post0 have post: "if e_skip st' then drop (nat off) D = [] \<and> e_buf st' = buf
        else avail_out (e_strm st') = nat len - length ?got \<and>
             e_buf st' = ?got @ drop (length ?got) buf"
    unfolding f0 pos .
  have res: "extract' Z f idx off buf len =
      Some (Inr (if e_skip st' then 0 else len - int (avail_out (e_strm st')), e_buf st', e_in st'))"
    by (simp add: extract'_def start run)
  show ?thesis
  proof (cases "e_skip st'")
    case True
    with post have g: "drop (nat off) D = []" and b: "e_buf st' = buf" by simp_all
    show ?thesis using res True by (intro exI[of _ "e_in st'"]) (simp add: g b)
  next
    case False
    with post have av: "avail_out (e_strm st') = nat len - length ?got"
      and bf: "e_buf st' = ?got @ drop (length ?got) buf" by simp_all
    have "length ?got \<le> nat len" by simp
    then have "len - int (nat len - length ?got) = int (length ?got)" using len by linarith
    with res False av bf show ?thesis by (intro exI[of _ "e_in st'"]) simp
  qed
qed

lemma block_ok_H:
  assumes "block_ok Z cont D H A R" and "H s pin" and "0 < k" and "pin + k \<le> length cont" and "0 < n"
    and "rz = z_inflate Z s Z_BLOCK (take k (drop pin cont)) n"
  shows "r_in rz \<le> k" and "take n (r_out rz) = []"
    and "continuing (r_ret rz) \<Longrightarrow> r_data_type rz AND 128 \<noteq> 0 \<Longrightarrow>
           r_data_type rz AND 64 = 0 \<and> A (r_state rz) (pin + r_in rz) 0 \<and>
           restart_ok Z cont D R (pin + r_in rz) 0 (r_data_type rz AND 7)"
    and "continuing (r_ret rz) \<Longrightarrow> r_data_type rz AND 128 = 0 \<Longrightarrow> H (r_state rz) (pin + r_in rz)"
proof -
  from assms(1) have "\<forall>s pin k n. H s pin \<longrightarrow> 0 < k \<longrightarrow> pin + k \<le> length cont \<longrightarrow> 0 < n \<longrightarrow>
         (let r = z_inflate Z s Z_BLOCK (take k (drop pin cont)) n
          in r_in r \<le> k \<and> take n (r_out r) = [] \<and>
             (continuing (r_ret r) \<longrightarrow>
                (if r_data_type r AND 128 \<noteq> 0
                 then r_data_type r AND 64 = 0 \<and> A (r_state r) (pin + r_in r) 0 \<and>
                      restart_ok Z cont D R (pin + r_in r) 0 (r_data_type r AND 7)
                 else H (r_state r) (pin + r_in r))))"
    unfolding block_ok_def by blast
  from this[rule_format, OF assms(2-5)] have
    *: "r_in rz \<le> k \<and> take n (r_out rz) = [] \<and>
             (continuing (r_ret rz) \<longrightarrow>
                (if r_data_type rz AND 128 \<noteq> 0
                 then r_data_type rz AND 64 = 0 \<and> A (r_state rz) (pin + r_in rz) 0 \<and>
                      restart_ok Z cont D R (pin + r_in rz) 0 (r_data_type rz AND 7)
                 else H (r_state rz) (pin + r_in rz)))"
    unfolding Let_def assms(6) .
  from * show "r_in rz \<le> k" "take n (r_out rz) = []" by blast+
  { assume "continuing (r_ret rz)" "r_data_type rz AND 128 \<noteq> 0"
    with * show "r_data_type rz AND 64 = 0 \<and> A (r_state rz) (pin + r_in rz) 0 \<and>
           restart_ok Z cont D R (pin + r_in rz) 0 (r_data_type rz AND 7)" by presburger }
  { assume "continuing (r_ret rz)" "r_data_type rz AND 128 = 0"
    with * show "H (r_state rz) (pin + r_in rz)" by presburger }
qed

lemma block_ok_A:
  assumes "block_ok Z cont D H A R" and "A s pin pout" and "0 < k" and "pin + k \<le> length cont"
    and "0 < n" and "rz = z_inflate Z s Z_BLOCK (take k (drop pin cont)) n"
    and "m = length (take n (r_out rz))"
  shows "r_in rz \<le> k" and "take n (r_out rz) = take m (drop pout D)" and "pout + m \<le> length D"
    and "continuing (r_ret rz) \<Longrightarrow> A (r_state rz) (pin + r_in rz) (pout + m)"
    and "continuing (r_ret rz) \<Longrightarrow> r_data_type rz AND 128 \<noteq> 0 \<Longrightarrow> r_data_type rz AND 64 = 0 \<Longrightarrow>
           restart_ok Z cont D R (pin + r_in rz) (pout + m) (r_data_type rz AND 7)"
proof -
  from assms(1) have "\<forall>s pin pout k n. A s pin pout \<longrightarrow> 0 < k \<longrightarrow> pin + k \<le> length cont \<longrightarrow> 0 < n \<longrightarrow>
         (let r = z_inflate Z s Z_BLOCK (take k (drop pin cont)) n;
              m = length (take n (r_out r))
          in r_in r \<le> k \<and> take n (r_out r) = take m (drop pout D) \<and> pout + m \<le> length D \<and>
             (r_ret r = Z_STREAM_END \<longrightarrow> pout + m = length D) \<and>
             (continuing (r_ret r) \<longrightarrow>
                A (r_state r) (pin + r_in r) (pout + m) \<and>
                (r_data_type r AND 128 \<noteq> 0 \<and> r_data_type r AND 64 = 0 \<longrightarrow>
                   restart_ok Z cont D R (pin + r_in r) (pout + m) (r_data_type r AND 7))))"
    unfolding block_ok_def by blast
  from this[rule_format, OF assms(2-5)] have
    *: "r_in rz \<le> k \<and> take n (r_out rz) = take m (drop pout D) \<and> pout + m \<le> length D \<and>
             (r_ret rz = Z_STREAM_END \<longrightarrow> pout + m = length D) \<and>
             (continuing (r_ret rz) \<longrightarrow>
                A (r_state rz) (pin + r_in rz) (pout + m) \<and>
                (r_data_type rz AND 128 \<noteq> 0 \<and> r_data_type rz AND 64 = 0 \<longrightarrow>
                   restart_ok Z cont D R (pin + r_in rz) (pout + m) (r_data_type rz AND 7)))"
    unfolding Let_def assms(6,7) .
  from * show "r_in rz \<le> k" "take n (r_out rz) = take m (drop pout D)" "pout + m \<le> length D"
    by blast+
  { assume "continuing (r_ret rz)"
    with * show "A (r_state rz) (pin + r_in rz) (pout + m)" by blast }
  { assume "continuing (r_ret rz)" "r_data_type rz AND 128 \<noteq> 0" "r_data_type rz AND 64 = 0"
    with * show "restart_ok Z cont D R (pin + r_in rz) (pout + m) (r_data_type rz AND 7)" by blast }
qed

text \<open>One pass through the body of the inner loop of \<open>build_index\<close> keeps \<open>b_inv\<close>.\<close>

lemma b_inv_Next:
  assumes ok: "block_ok Z cont D H A R" and inv: "b_inv Z M cont D H A R st"
    and ne: "next_in (b_strm st) \<noteq> []"
    and step: "build_index_step Z M span st = Next r st'"
  shows "b_inv Z M cont D H A R st'"
proof -
  from build_index_step_Next[OF step] obtain outb where
    inf: "inflate Z (reset_window (b_strm st)) Z_BLOCK = (r, outb, b_strm st')"
    and rr: "r \<noteq> Z_NEED_DICT" "r \<noteq> Z_MEM_ERROR" "r \<noteq> Z_DATA_ERROR" "r \<noteq> Z_STREAM_END"
    and bin: "b_in st' = b_in st"
    and win': "b_window st' = memcpy (b_window st) (WINSIZE - avail_out (reset_window (b_strm st))) outb 0 (length outb)"
    and tin': "totin st' = totin st + int (length (next_in (reset_window (b_strm st)))) - int (length (next_in (b_strm st')))"
    and tout': "totout st' = totout st + int (avail_out (reset_window (b_strm st))) - int (avail_out (b_strm st'))"
    and pt: "if want_point (data_type (b_strm st')) (totout st') (last_out st) span
       then \<exists>a. addpoint M (b_index st) (data_type (b_strm st') AND 7) (totin st') (totout st')
                    (avail_out (b_strm st')) (b_window st') = Some a \<and>
                 b_index st' = Some a \<and> last_out st' = totout st'
       else b_index st' = b_index st \<and> last_out st' = last_out st"
    by blast
  define k where "k = length (next_in (b_strm st))"
  define n where "n = avail_out (reset_window (b_strm st))"
  define pin where "pin = b_pin st"
  define t where "t = nat (totout st)"
  define mo where "mo = length outb"
  define rz where "rz = z_inflate Z (zstate (b_strm st)) Z_BLOCK (take k (drop pin cont)) n"
  from inv have io: "b_io cont st" and ring: "b_ring M D st" and rel: "b_rel H A st"
    and ix: "ix_ok Z cont R (b_index st)" by (simp_all add: b_inv_def)
  from io have hl: "healthy (b_in st)" and ct: "content (b_in st) = cont"
    and kf: "k \<le> fpos (b_in st)" and fl: "fpos (b_in st) \<le> length cont"
    and ni: "next_in (b_strm st) = take k (drop pin cont)" and ti: "totin st = int pin"
    by (simp_all add: b_io_def k_def pin_def)
  from ring have t0: "0 \<le> totout st" and tD: "t \<le> length D"
    and av: "avail_out (b_strm st) \<le> WINSIZE" and lw: "length (b_window st) = WINSIZE"
    and rg: "rotate (WINSIZE - avail_out (b_strm st)) (b_window st) =
             drop t (fresh M WINSIZE @ take t D)"
    by (simp_all add: b_ring_def t_def)
  have k0: "0 < k" using ne by (simp add: k_def)
  have pk: "pin + k \<le> length cont" using kf fl by (simp add: pin_def b_pin_def k_def)
  have n0: "0 < n" and nW: "n \<le> WINSIZE"
    using reset_window_facts(1)[OF av] reset_window_facts(2)[of "b_strm st"] by (simp_all add: n_def)
  have rg1: "rotate (WINSIZE - n) (b_window st) = drop t (fresh M WINSIZE @ take t D)"
  proof (cases "avail_out (b_strm st) = 0")
    case True
    then have "n = WINSIZE" by (simp add: n_def reset_window_def)
    moreover have "rotate WINSIZE (b_window st) = b_window st"
      using lw by (subst rotate_conv_mod) simp
    ultimately show ?thesis using rg True by simp
  next
    case False
    then have "n = avail_out (b_strm st)" by (simp add: n_def reset_window_def)
    then show ?thesis using rg by simp
  qed
  note f = inflate_facts[OF inf, unfolded reset_window_facts(3,4)]
  have rzeq: "z_inflate Z (zstate (b_strm st)) Z_BLOCK (next_in (b_strm st)) (avail_out (reset_window (b_strm st))) = rz"
    using ni by (simp add: rz_def n_def)
  have ob: "outb = take n (r_out rz)" and rret: "r = r_ret rz"
    and dt: "data_type (b_strm st') = r_data_type rz"
    and zs: "zstate (b_strm st') = r_state rz"
    and nx: "next_in (b_strm st') = drop (r_in rz) (next_in (b_strm st))"
    and av': "avail_out (b_strm st') = n - mo" and mon: "mo \<le> n"
    using f rzeq by (simp_all add: n_def mo_def)
  have cont: "continuing (r_ret rz)" using rr rret by (simp add: continuing_def)
  have mlen: "mo = length (take n (r_out rz))" using ob by (simp add: mo_def)
  \<comment> \<open>what the contract gives, whichever state the stream is in\<close>
  have common: "r_in rz \<le> k \<and> outb = take mo (drop t D) \<and> t + mo \<le> length D"
  proof (cases "b_index st")
    case None
    with rel have H0: "H (zstate (b_strm st)) pin" and z: "totout st = 0"
      by (simp_all add: b_rel_def pin_def)
    from block_ok_H(1,2)[OF ok H0 k0 pk n0 rz_def] have "r_in rz \<le> k" "outb = []"
      using ob by simp_all
    then show ?thesis using tD by (simp add: mo_def)
  next
    case (Some a)
    with rel have A0: "A (zstate (b_strm st)) pin t" by (simp add: b_rel_def pin_def t_def)
    from block_ok_A(1,2,3)[OF ok A0 k0 pk n0 rz_def mlen] ob show ?thesis by simp
  qed
  then have ri: "r_in rz \<le> k" and obD: "outb = take mo (drop t D)" and tmD: "t + mo \<le> length D"
    by blast+
  have pin': "b_pin st' = pin + r_in rz"
    using nx ri kf by (simp add: b_pin_def bin pin_def k_def)
  have tin2: "totin st' = int (pin + r_in rz)"
    using tin' ti nx ri by (simp add: reset_window_facts k_def)
  have tout2: "totout st' = int (t + mo)"
    using tout' av' mon t0 by (simp add: n_def t_def)
  have lw': "length (b_window st') = WINSIZE"
    using win' lw mon nW n0 by (simp add: memcpy_def n_def mo_def)
  have rot': "rotate (WINSIZE - (n - mo)) (b_window st') =
              drop (t + mo) (fresh M WINSIZE @ take (t + mo) D)"
  proof -
    have a: "length outb \<le> n" using mon by (simp add: mo_def)
    have b: "length (fresh M WINSIZE) = WINSIZE" by simp
    have c: "outb = take (length outb) (drop t D)" using obD unfolding mo_def .
    show ?thesis
      unfolding win' n_def[symmetric] mo_def
      by (rule ring_advance[OF lw n0 nW a tD b rg1 c])
  qed
  have io': "b_io cont st'"
  proof -
    have "next_in (b_strm st') = take (k - r_in rz) (drop (pin + r_in rz) cont)"
      using nx ni by (simp add: drop_take add.commute)
    moreover have "length (next_in (b_strm st')) = k - r_in rz" using nx by (simp add: k_def)
    ultimately show ?thesis
      using hl ct kf fl tin2 pin' ri by (simp add: b_io_def bin)
  qed
  have nt: "nat (totout st') = t + mo" using tout2 by simp
  have ring': "b_ring M D st'"
    unfolding b_ring_def nt av' using tout2 tmD nW lw' rot' by simp
  have rest: "b_rel H A st' \<and> ix_ok Z cont R (b_index st')"
  proof (cases "want_point (data_type (b_strm st')) (totout st') (last_out st) span")
    case True
    with pt obtain a' where
      ap: "addpoint M (b_index st) (data_type (b_strm st') AND 7) (totin st') (totout st')
             (avail_out (b_strm st')) (b_window st') = Some a'"
      and ix': "b_index st' = Some a'" by auto
    have left: "avail_out (b_strm st') \<le> WINSIZE" using av' nW by simp
    define p where "p = \<lparr>out = int (t + mo), inp = int (pin + r_in rz), bits = r_data_type rz AND 7,
              window = drop (t + mo) (fresh M WINSIZE @ take (t + mo) D)\<rparr>"
    have "drop (WINSIZE - (n - mo)) (b_window st') @ take (WINSIZE - (n - mo)) (b_window st') =
          rotate (WINSIZE - (n - mo)) (b_window st')"
      by (rule drop_take_rotate) (simp add: lw')
    with addpoint_Some[OF left lw' ap] rot'
    have lst: "list_p a' = (case b_index st of None \<Rightarrow> [] | Some a0 \<Rightarrow> list_p a0) @ [p]"
      by (simp add: p_def tin2 tout2 dt av')
    from True have flag: "r_data_type rz AND 128 \<noteq> 0" "r_data_type rz AND 64 = 0"
      by (simp_all add: want_point_def dt)
    show ?thesis
    proof (cases "b_index st")
      case None
      with rel have H0: "H (zstate (b_strm st)) pin" and z: "totout st = 0"
        by (simp_all add: b_rel_def pin_def)
      from block_ok_H(2)[OF ok H0 k0 pk n0 rz_def] have "outb = []" using ob by simp
      then have m0: "mo = 0" by (simp add: mo_def)
      from z have tz: "t = 0" by (simp add: t_def)
      from block_ok_H(3)[OF ok H0 k0 pk n0 rz_def cont flag(1)]
      have A': "A (r_state rz) (pin + r_in rz) 0"
        and ro: "restart_ok Z cont D R (pin + r_in rz) 0 (r_data_type rz AND 7)" by blast+
      from ro have "valid_point Z cont R p"
        unfolding restart_ok_def p_def m0 tz by simp
      with lst None A' show ?thesis
        by (simp add: b_rel_def ix_ok_def ix' zs pin' nt m0 tz p_def)
    next
      case (Some a0)
      with rel have A0: "A (zstate (b_strm st)) pin t" by (simp add: b_rel_def pin_def t_def)
      from block_ok_A(4)[OF ok A0 k0 pk n0 rz_def mlen cont]
      have A': "A (r_state rz) (pin + r_in rz) (t + mo)" .
      from block_ok_A(5)[OF ok A0 k0 pk n0 rz_def mlen cont flag]
      have "valid_point Z cont R p"
        unfolding restart_ok_def p_def by simp
      moreover from ix Some have "list_p a0 \<noteq> []" "out (hd (list_p a0)) = 0"
        "\<forall>q \<in> set (list_p a0). valid_point Z cont R q" by (simp_all add: ix_ok_def)
      ultimately show ?thesis using lst Some A'
        by (auto simp: b_rel_def ix_ok_def ix' zs pin' nt)
    qed
  next
    case False
    with pt have ix': "b_index st' = b_index st" by simp
    show ?thesis
    proof (cases "b_index st")
      case None
      with rel have H0: "H (zstate (b_strm st)) pin" and z: "totout st = 0"
        by (simp_all add: b_rel_def pin_def)
      from block_ok_H(2)[OF ok H0 k0 pk n0 rz_def] have "outb = []" using ob by simp
      then have m0: "mo = 0" by (simp add: mo_def)
      from z have tz: "t = 0" by (simp add: t_def)
      have "r_data_type rz AND 128 = 0"
      proof (rule ccontr)
        assume b: "r_data_type rz AND 128 \<noteq> 0"
        from block_ok_H(3)[OF ok H0 k0 pk n0 rz_def cont b] have "r_data_type rz AND 64 = 0" by blast
        with b False show False by (simp add: want_point_def dt tout2 m0 tz)
      qed
      from block_ok_H(4)[OF ok H0 k0 pk n0 rz_def cont this]
      show ?thesis using None tout2 by (simp add: b_rel_def ix_ok_def ix' zs pin' m0 tz)
    next
      case (Some a0)
      with rel have A0: "A (zstate (b_strm st)) pin t" by (simp add: b_rel_def pin_def t_def)
      from block_ok_A(4)[OF ok A0 k0 pk n0 rz_def mlen cont]
      show ?thesis using Some ix by (simp add: b_rel_def ix' zs pin' nt)
    qed
  qed
  from io' ring' rest show ?thesis by (simp add: b_inv_def)
qed

lemma b_inv_feed:
  assumes inv: "b_inv Z M cont D H A R s" and e: "next_in (b_strm s) = []"
    and fr: "fread (b_in s) CHUNK = (bs, f')"
  shows "b_inv Z M cont D H A R (s\<lparr>b_in := f', b_strm := (b_strm s)\<lparr>next_in := bs\<rparr>\<rparr>)"
proof -
  let ?f = "b_in s"
  let ?s1 = "s\<lparr>b_in := f', b_strm := (b_strm s)\<lparr>next_in := bs\<rparr>\<rparr>"
  from inv have io: "b_io cont s" and ring: "b_ring M D s" and rel: "b_rel H A s"
    and ix: "ix_ok Z cont R (b_index s)" by (simp_all add: b_inv_def)
  from io have h: "healthy ?f" and c: "content ?f = cont" and fl: "fpos ?f \<le> length cont"
    and ti: "totin s = int (b_pin s)" by (simp_all add: b_io_def)
  have rd: "readable ?f = length cont" using h c by (simp add: readable_def healthy_def)
  have bs: "bs = take (min CHUNK (length cont - fpos ?f)) (drop (fpos ?f) cont)"
    using fr h by (auto simp: fread_def rd c healthy_def Let_def)
  have len: "length bs = min CHUNK (length cont - fpos ?f)" using bs by simp
  have f': "f' = ?f\<lparr>fpos := fpos ?f + length bs\<rparr>"
    unfolding len using fr h by (auto simp: fread_def rd c healthy_def Let_def)
  have pin: "b_pin ?s1 = b_pin s" using e by (simp add: b_pin_def f')
  have p0: "b_pin s = fpos ?f" using e by (simp add: b_pin_def)
  have "b_io cont ?s1"
    unfolding b_io_def pin using h c fl ti len bs p0 by (simp add: f' healthy_def)
  moreover have "b_ring M D ?s1" using ring by (simp add: b_ring_def)
  moreover have "b_rel H A ?s1" using rel unfolding b_rel_def pin
    by (simp split: option.splits)
  ultimately show ?thesis using ix by (simp add: b_inv_def)
qed

lemma b_inv_init:
  assumes "H s0 0" and "healthy f" and "fpos f = 0" and "content f = cont"
  shows "b_inv Z M cont D H A R (build_index_init Z M f s0)"
  using assms
  by (simp add: b_inv_def b_io_def b_ring_def b_rel_def ix_ok_def build_index_init_def b_pin_def)

text \<open>
  Under the contract of the inflater, every access point that \<open>build_index\<close> returns for
  a file read from its start is one from which the raw stream restarts (\<open>valid_point\<close>),
  and the first point is at uncompressed offset 0.
\<close>

lemma built_index_valid:
  assumes ok: "zlib_ok Z cont D H A R"
    and h: "healthy f" and p0: "fpos f = 0" and c: "content f = cont"
    and run: "build_index Z M f span = Some (Inr (n, Some a))"
  shows "list_p a \<noteq> [] \<and> out (hd (list_p a)) = 0 \<and> (\<forall>p \<in> set (list_p a). valid_point Z cont R p)"
proof -
  from ok have H0: "H (snd (z_inflateInit2 Z 47)) 0" and bo: "block_ok Z cont D H A R"
    by (simp_all add: zlib_ok_def)
  from build_index_result[OF run] obtain s0 r st a0 where
    init: "z_inflateInit2 Z 47 = (Z_OK, s0)"
    and outer: "build_index_outer Z M span (build_index_init Z M f s0) = Some (Left r st)"
    and ix: "b_index st = Some a0" and a: "a = a0\<lparr>size_n := have_n a0\<rparr>"
    by blast
  from H0 init have "H s0 0" by simp
  from b_inv_init[where H = H, OF this h p0 c]
  have i0: "b_inv Z M cont D H A R (build_index_init Z M f s0)" .
  have "\<forall>r' s'. Left r st = Left r' s' \<longrightarrow> r' = Z_STREAM_END \<and> ix_ok Z cont R (b_index s')"
  proof (rule build_outer_inv[where I = "b_inv Z M cont D H A R" and J = "\<lambda>s. b_inv Z M cont D H A R s \<and> next_in (b_strm s) = []", OF outer])
    show "b_inv Z M cont D H A R (build_index_init Z M f s0) \<and>
          next_in (b_strm (build_index_init Z M f s0)) = []"
      using i0 by (simp add: build_index_init_def)
    show "\<forall>s bs f'. b_inv Z M cont D H A R s \<and> next_in (b_strm s) = [] \<longrightarrow>
            fread (b_in s) CHUNK = (bs, f') \<longrightarrow> \<not> ferr f' \<longrightarrow> bs \<noteq> [] \<longrightarrow>
            b_inv Z M cont D H A R (s\<lparr>b_in := f', b_strm := (b_strm s)\<lparr>next_in := bs\<rparr>\<rparr>)"
      using b_inv_feed by blast
    show "\<forall>s r s'. b_inv Z M cont D H A R s \<longrightarrow> next_in (b_strm s) \<noteq> [] \<longrightarrow>
            build_index_step Z M span s = Next r s' \<longrightarrow> b_inv Z M cont D H A R s'"
      using b_inv_Next[OF bo] by blast
    show "\<forall>s r s'. b_inv Z M cont D H A R s \<longrightarrow> next_in (b_strm s) \<noteq> [] \<longrightarrow>
            build_index_step Z M span s = Break r s' \<longrightarrow> ix_ok Z cont R (b_index s')"
    proof (intro allI impI)
      fix s r s'
      assume i: "b_inv Z M cont D H A R s" and b: "build_index_step Z M span s = Break r s'"
      from build_index_step_Break[OF b] have "b_index s' = b_index s" by blast
      with i show "ix_ok Z cont R (b_index s')" by (simp add: b_inv_def)
    qed
    show "\<forall>s. b_inv Z M cont D H A R s \<longrightarrow> next_in (b_strm s) = [] \<longrightarrow>
            b_inv Z M cont D H A R s \<and> next_in (b_strm s) = []" by blast
  qed
  then have "ix_ok Z cont R (Some a0)" using ix by simp
  then show ?thesis using a by (simp add: ix_ok_def)
qed

lemma out_order_sorted:
  assumes "sorted_wrt out_order ps"
  shows "sorted (map out ps)"
proof -
  have "sorted_wrt (\<lambda>p q. out p \<le> out q) ps"
    by (rule sorted_wrt_mono_rel[OF _ assms]) (auto simp: out_order_def)
  then show ?thesis by (simp add: sorted_map)
qed

text \<open>
  Claim C1. A session is opened on a compressed file \<open>cont\<close> whose decompressed stream is
  \<open>D\<close>, with the index that \<open>build_index\<close> returned for that file; the inflater keeps its
  contract on the file (\<open>zlib_ok\<close>) and the file reads without error (\<open>healthy\<close>). Then
  for every offset \<open>off \<ge> 0\<close> and length \<open>len \<ge> 0\<close> that the buffer can hold,
  \<open>seekgzip_seek\<close> to \<open>off\<close> followed by \<open>seekgzip_read\<close> of \<open>len\<close> bytes returns: it
  writes the bytes of \<open>D\<close> at positions \<open>[off, off + len)\<close>, clipped to the length of
  \<open>D\<close>, to the start of the buffer, leaves the rest of the buffer as it was, and returns
  their count.
\<close>

theorem read_delivers_stream_bytes:
  assumes ok: "zlib_ok Z cont D H A R"
    and f0: "healthy f0" "fpos f0 = 0" "content f0 = cont"
    and built: "build_index Z M f0 span = Some (Inr (n, Some idx))" and span: "0 \<le> span"
    and sess: "fp zs = Some f" "healthy f" "content f = cont" "index zs = idx"
    and off: "0 \<le> off" and len: "0 \<le> len" "nat len \<le> length buf"
  shows "\<exists>zs'. seekgzip_read Z (seekgzip_seek zs off) buf len =
           Some (Inr (int (length (stream_slice D off len)),
                      stream_slice D off len @ drop (length (stream_slice D off len)) buf, zs'))"
proof -
  from ok have raw: "raw_ok Z cont D R" and init: "fst (z_inflateInit2 Z (- 15)) = Z_OK"
    by (simp_all add: zlib_ok_def)
  from built_index_inv[OF built span]
  have wf: "have_n idx = int (length (list_p idx))" and so: "sorted_wrt out_order (list_p idx)"
    by blast+
  from built_index_valid[OF ok f0 built]
  have ne: "list_p idx \<noteq> []" and hd0: "out (hd (list_p idx)) = 0"
    and valid: "\<forall>p \<in> set (list_p idx). valid_point Z cont R p" by blast+
  from hd0 off have first: "out (hd (list_p idx)) \<le> off" by simp
  from extract_correct[OF raw init sess(2,3) wf out_order_sorted[OF so] ne first valid len]
  obtain f' where
    "extract' Z f idx off buf len =
       Some (Inr (int (length (take (nat len) (drop (nat off) D))),
                  take (nat len) (drop (nat off) D) @
                  drop (length (take (nat len) (drop (nat off) D))) buf, f'))"
    by blast
  then show ?thesis
    using sess(1,4) unfolding seekgzip_read_def seekgzip_seek_def stream_slice_def by simp
qed

lemma toy_copy_spec:
  assumes "255 \<notin> set xs"
  shows "toy_copy (take k (xs @ [255])) n =
     (if length xs < k \<and> length xs \<le> n then (Suc (length xs), xs, True)
      else (min (min k (length xs)) n, take (min (min k (length xs)) n) xs, False))"
  using assms
proof (induction xs arbitrary: k n)
  case Nil
  then show ?case by (cases k) simp_all
next
  case (Cons x xs)
  then have x: "x \<noteq> 255" and xs: "255 \<notin> set xs" by auto
  show ?case
  proof (cases k)
    case 0
    then show ?thesis by simp
  next
    case (Suc k')
    show ?thesis
    proof (cases n)
      case 0
      then show ?thesis using Suc x by simp
    next
      case (Suc n')
      show ?thesis using \<open>k = Suc k'\<close> Suc x Cons.IH[OF xs, of k' n'] by simp
    qed
  qed
qed

lemma toy_body:
  assumes pay: "255 \<notin> set pay" and po: "pout \<le> length pay"
  shows "z_inflate toy_zlib TBody fl (take k (drop (Suc pout) (h # pay @ [255]))) n =
     (if length pay - pout < k \<and> length pay - pout \<le> n
      then \<lparr>r_ret = Z_STREAM_END, r_in = Suc (length pay - pout), r_out = drop pout pay,
            r_data_type = 64, r_state = TDone\<rparr>
      else \<lparr>r_ret = (if min (min k (length pay - pout)) n = 0 then Z_BUF_ERROR else Z_OK),
            r_in = min (min k (length pay - pout)) n,
            r_out = take (min (min k (length pay - pout)) n) (drop pout pay),
            r_data_type = 64, r_state = TBody\<rparr>)"
proof -
  have "255 \<notin> set (drop pout pay)" using pay by (meson in_set_dropD)
  note c = toy_copy_spec[OF this, of k n]
  have eq: "take k (drop (Suc pout) (h # pay @ [255])) = take k (drop pout pay @ [255])"
    using po by simp
  have len: "length (drop pout pay) = length pay - pout" by simp
  show ?thesis
    unfolding eq using c unfolding len
    by (cases "length pay - pout < k \<and> length pay - pout \<le> n") (simp_all add: toy_zlib_def)
qed

lemma toy_resume [simp]: "resume_state toy_zlib cont p = TBody"
  by (simp add: resume_state_def toy_zlib_def)

lemma toy_raw_ok:
  assumes pay: "255 \<notin> set pay"
  shows "raw_ok toy_zlib (h # pay @ [255]) pay (toy_A pay)"
  unfolding raw_ok_def
proof (intro allI impI)
  fix s pin pout
  assume "toy_A pay s pin pout"
  then have s: "s = TBody" and pin: "pin = Suc pout" and po: "pout \<le> length pay"
    by (simp_all add: toy_A_def)
  have a: "pin < length (h # pay @ [255])" using pin po by simp
  have b: "\<forall>k n. 0 < k \<longrightarrow> pin + k \<le> length (h # pay @ [255]) \<longrightarrow>
        (let r = z_inflate toy_zlib s Z_NO_FLUSH (take k (drop pin (h # pay @ [255]))) n;
             m = length (take n (r_out r))
         in r_in r \<le> k \<and> take n (r_out r) = take m (drop pout pay) \<and>
            (r_ret r = Z_OK \<or> r_ret r = Z_BUF_ERROR \<or> r_ret r = Z_STREAM_END) \<and>
            (r_ret r = Z_STREAM_END \<longrightarrow> pout + m = length pay) \<and>
            (r_ret r \<noteq> Z_STREAM_END \<longrightarrow>
               toy_A pay (r_state r) (pin + r_in r) (pout + m) \<and> (r_in r = k \<or> m = n)))"
  proof (intro allI impI)
    fix k n :: nat
    assume k: "0 < k" and kk: "pin + k \<le> length (h # pay @ [255])"
    show "let r = z_inflate toy_zlib s Z_NO_FLUSH (take k (drop pin (h # pay @ [255]))) n;
             m = length (take n (r_out r))
         in r_in r \<le> k \<and> take n (r_out r) = take m (drop pout pay) \<and>
            (r_ret r = Z_OK \<or> r_ret r = Z_BUF_ERROR \<or> r_ret r = Z_STREAM_END) \<and>
            (r_ret r = Z_STREAM_END \<longrightarrow> pout + m = length pay) \<and>
            (r_ret r \<noteq> Z_STREAM_END \<longrightarrow>
               toy_A pay (r_state r) (pin + r_in r) (pout + m) \<and> (r_in r = k \<or> m = n))"
      unfolding s pin toy_body[OF pay po] Let_def
      using po k kk pin
      by (cases "length pay - pout < k \<and> length pay - pout \<le> n")
         (auto simp: toy_A_def Z_OK_def Z_BUF_ERROR_def Z_STREAM_END_def min_def)
  qed
  from a po b show "pin < length (h # pay @ [255]) \<and> pout \<le> length pay \<and>
       (\<forall>k n. 0 < k \<longrightarrow> pin + k \<le> length (h # pay @ [255]) \<longrightarrow>
        (let r = z_inflate toy_zlib s Z_NO_FLUSH (take k (drop pin (h # pay @ [255]))) n;
             m = length (take n (r_out r))
         in r_in r \<le> k \<and> take n (r_out r) = take m (drop pout pay) \<and>
            (r_ret r = Z_OK \<or> r_ret r = Z_BUF_ERROR \<or> r_ret r = Z_STREAM_END) \<and>
            (r_ret r = Z_STREAM_END \<longrightarrow> pout + m = length pay) \<and>
            (r_ret r \<noteq> Z_STREAM_END \<longrightarrow>
               toy_A pay (r_state r) (pin + r_in r) (pout + m) \<and> (r_in r = k \<or> m = n))))"
    by blast
qed

lemma toy_restart_ok:
  "pout \<le> length pay \<Longrightarrow> restart_ok toy_zlib cont pay (toy_A pay) (Suc pout) pout 0"
  by (auto simp: restart_ok_def valid_point_def toy_A_def)

lemma toy_block_ok:
  assumes pay: "255 \<notin> set pay"
  shows "block_ok toy_zlib (h # pay @ [255]) pay toy_H (toy_A pay) (toy_A pay)"
proof -
  let ?cont = "h # pay @ [255]"
  have hd: "\<forall>s pin k n. toy_H s pin \<longrightarrow> 0 < k \<longrightarrow> pin + k \<le> length ?cont \<longrightarrow> 0 < n \<longrightarrow>
         (let r = z_inflate toy_zlib s Z_BLOCK (take k (drop pin ?cont)) n
          in r_in r \<le> k \<and> take n (r_out r) = [] \<and>
             (continuing (r_ret r) \<longrightarrow>
                (if r_data_type r AND 128 \<noteq> 0
                 then r_data_type r AND 64 = 0 \<and> toy_A pay (r_state r) (pin + r_in r) 0 \<and>
                      restart_ok toy_zlib ?cont pay (toy_A pay) (pin + r_in r) 0 (r_data_type r AND 7)
                 else toy_H (r_state r) (pin + r_in r))))"
  proof (intro allI impI)
    fix s :: toy and pin k n :: nat
    assume "toy_H s pin" and k: "0 < k"
    then have s: "s = THead" and pin: "pin = 0" by (simp_all add: toy_H_def)
    from k obtain k' where k': "k = Suc k'" by (cases k) auto
    have r: "z_inflate toy_zlib THead Z_BLOCK (take k (drop 0 ?cont)) n =
             \<lparr>r_ret = Z_OK, r_in = 1, r_out = [], r_data_type = 128, r_state = TBody\<rparr>"
      by (simp add: toy_zlib_def k')
    have ro: "restart_ok toy_zlib ?cont pay (toy_A pay) (Suc 0) 0 0"
      by (rule toy_restart_ok) simp
    show "let r = z_inflate toy_zlib s Z_BLOCK (take k (drop pin ?cont)) n
          in r_in r \<le> k \<and> take n (r_out r) = [] \<and>
             (continuing (r_ret r) \<longrightarrow>
                (if r_data_type r AND 128 \<noteq> 0
                 then r_data_type r AND 64 = 0 \<and> toy_A pay (r_state r) (pin + r_in r) 0 \<and>
                      restart_ok toy_zlib ?cont pay (toy_A pay) (pin + r_in r) 0 (r_data_type r AND 7)
                 else toy_H (r_state r) (pin + r_in r)))"
      unfolding s pin r Let_def using ro k by (simp add: toy_A_def)
  qed
  have bd: "\<forall>s pin pout k n. toy_A pay s pin pout \<longrightarrow> 0 < k \<longrightarrow> pin + k \<le> length ?cont \<longrightarrow> 0 < n \<longrightarrow>
         (let r = z_inflate toy_zlib s Z_BLOCK (take k (drop pin ?cont)) n;
              m = length (take n (r_out r))
          in r_in r \<le> k \<and> take n (r_out r) = take m (drop pout pay) \<and> pout + m \<le> length pay \<and>
             (r_ret r = Z_STREAM_END \<longrightarrow> pout + m = length pay) \<and>
             (continuing (r_ret r) \<longrightarrow>
                toy_A pay (r_state r) (pin + r_in r) (pout + m) \<and>
                (r_data_type r AND 128 \<noteq> 0 \<and> r_data_type r AND 64 = 0 \<longrightarrow>
                   restart_ok toy_zlib ?cont pay (toy_A pay) (pin + r_in r) (pout + m) (r_data_type r AND 7))))"
  proof (intro allI impI)
    fix s :: toy and pin pout k n :: nat
    assume "toy_A pay s pin pout" and k: "0 < k" and kk: "pin + k \<le> length ?cont" and n: "0 < n"
    then have s: "s = TBody" and pin: "pin = Suc pout" and po: "pout \<le> length pay"
      by (simp_all add: toy_A_def)
    show "let r = z_inflate toy_zlib s Z_BLOCK (take k (drop pin ?cont)) n;
              m = length (take n (r_out r))
          in r_in r \<le> k \<and> take n (r_out r) = take m (drop pout pay) \<and> pout + m \<le> length pay \<and>
             (r_ret r = Z_STREAM_END \<longrightarrow> pout + m = length pay) \<and>
             (continuing (r_ret r) \<longrightarrow>
                toy_A pay (r_state r) (pin + r_in r) (pout + m) \<and>
                (r_data_type r AND 128 \<noteq> 0 \<and> r_data_type r AND 64 = 0 \<longrightarrow>
                   restart_ok toy_zlib ?cont pay (toy_A pay) (pin + r_in r) (pout + m) (r_data_type r AND 7)))"
      unfolding s pin toy_body[OF pay po] Let_def
      using po k kk pin
      by (cases "length pay - pout < k \<and> length pay - pout \<le> n")
         (auto simp: toy_A_def continuing_def Z_OK_def Z_BUF_ERROR_def Z_STREAM_END_def min_def)
  qed
  from hd bd show ?thesis unfolding block_ok_def by blast
qed

lemma toy_zlib_ok:
  assumes "255 \<notin> set pay"
  shows "zlib_ok toy_zlib (h # pay @ [255]) pay toy_H (toy_A pay) (toy_A pay)"
  unfolding zlib_ok_def
  using toy_block_ok[OF assms] toy_raw_ok[OF assms]
  by (simp add: toy_zlib_def toy_H_def Z_OK_def)

lemma toy_build:
  "\<exists>w. build_index toy_zlib plain_mem (healthy_file toy_gz) SPAN =
     Some (Inr (1, Some \<lparr>have_n = 1, size_n = 1,
                 list_p = [\<lparr>out = 0, inp = 1, bits = 0, window = w\<rparr>]\<rparr>))"
  apply (simp add: build_index_def toy_zlib_def toy_gz_def Z_OK_def build_index_init_def)
  apply (subst build_index_outer.simps)
  apply (simp add: build_eval)
  apply (subst build_index_inner.simps)
  apply (simp add: build_eval)
  apply (subst build_index_inner.simps)
  apply (simp add: build_eval)
  done

theorem read_delivers_stream_bytes_witness:
  "\<exists>idx zs'.
     build_index toy_zlib plain_mem (healthy_file toy_gz) SPAN = Some (Inr (1, Some idx)) \<and>
     seekgzip_read toy_zlib
       (seekgzip_seek \<lparr>fp = Some (healthy_file toy_gz), index = idx, offset = 0, errorcode = 0\<rparr> 1)
       [0, 0, 0] 3 = Some (Inr (2, [66, 67, 0], zs'))"
proof -
  from toy_build obtain w where
    b: "build_index toy_zlib plain_mem (healthy_file toy_gz) SPAN =
          Some (Inr (1, Some \<lparr>have_n = 1, size_n = 1,
                 list_p = [\<lparr>out = 0, inp = 1, bits = 0, window = w\<rparr>]\<rparr>))" by blast
  define idx where "idx = \<lparr>have_n = 1, size_n = 1,
                 list_p = [\<lparr>out = 0, inp = 1, bits = 0, window = w\<rparr>]\<rparr>"
  define zs where "zs = \<lparr>fp = Some (healthy_file toy_gz), index = idx, offset = 0, errorcode = 0\<rparr>"
  have ok: "zlib_ok toy_zlib toy_gz [65, 66, 67] toy_H (toy_A [65, 66, 67]) (toy_A [65, 66, 67])"
    using toy_zlib_ok[of "[65, 66, 67]" 0] by (simp add: toy_gz_def)
  have h: "healthy (healthy_file toy_gz)" "fpos (healthy_file toy_gz) = 0"
    "content (healthy_file toy_gz) = toy_gz"
    by (simp_all add: healthy_def healthy_file_def)
  have s: "fp zs = Some (healthy_file toy_gz)" "index zs = idx" by (simp_all add: zs_def)
  have span: "0 \<le> SPAN" by (simp add: SPAN_def)
  have n: "(0::int) \<le> 1" "(0::int) \<le> 3" "nat 3 \<le> length [0::byte, 0, 0]" by simp_all
  from read_delivers_stream_bytes[OF ok h b[folded idx_def] span s(1) h(1,3) s(2) n]
  obtain zs' where
    "seekgzip_read toy_zlib (seekgzip_seek zs 1) [0, 0, 0] 3 =
       Some (Inr (int (length (stream_slice [65, 66, 67] 1 3)),
                  stream_slice [65, 66, 67] 1 3 @ drop (length (stream_slice [65, 66, 67] 1 3)) [0, 0, 0],
                  zs'))"
    by blast
  then have "seekgzip_read toy_zlib (seekgzip_seek zs 1) [0, 0, 0] 3 = Some (Inr (2, [66, 67, 0], zs'))"
    by (simp add: stream_slice_def)
  with b show ?thesis unfolding zs_def idx_def by blast
qed

end
